theory Spec2Isabelle
  imports Complex_Main "HOL-Library.Word" "HOL-Library.AList" "HOL-Library.Sublist"
    "HOL-Library.Log_Nat"
begin

unbundle bit_operations_syntax

section \<open>The environment of \<^verbatim>\<open>backupGDrive.pyw\<close>\<close>

text \<open>
  The program reads and writes a file system through \<^verbatim>\<open>pathlib\<close>, \<^verbatim>\<open>os\<close> and
  \<^verbatim>\<open>shutil\<close>, keeps one global set \<^verbatim>\<open>SEEN_FILES_FINGERPRINTS\<close> and prints lines.
  All of that is one explicit \<open>world\<close> value which every operation takes and returns.

  A path is a drive (the anchor of a Windows path) and the list of its components;
  \<^verbatim>\<open>p / name\<close> appends a component, \<^verbatim>\<open>p.name\<close> is the last one and \<^verbatim>\<open>p.parent\<close> drops it.
  Every drive holds a tree of directories and files. A directory keeps its entries in
  the order in which the operating system enumerates them.

  A time stamp (\<^verbatim>\<open>st_mtime\<close>, a Python float, in seconds) is the rational number that the
  float denotes. Comparison of floats is comparison of these numbers; addition of floats
  is \<open>float_add\<close> below, which rounds.
\<close>

type_synonym path = "string \<times> string list"

datatype node =
    File nat rat "32 word"
  | Dir nat rat "32 word" "(string \<times> node) list"

record stat_result =
  st_isdir :: bool
  st_size :: nat
  st_mtime :: rat
  st_file_attributes :: "32 word"

datatype exn =
    FileNotFoundError path
  | NotADirectoryError path
  | IsADirectoryError path
  | FileExistsError path
  | SameFileError path path
  | AttributeError
  | OSError string

datatype syscall = Stat path | Mkdir path | Copy2 path path

text \<open>
  The printed lines of the core: \<^verbatim>\<open>print(f"[..] {src_file.name}")\<close> before a copy (line 108),
  \<^verbatim>\<open>print(f"[..] .. {src_file}: {e}")\<close> in the exception handler (line 112), the scan
  banner of line 134 and the task banner of line 160. The tags are Chinese words in the
  source; a constructor stands for each. The exception value stands for its text \<^verbatim>\<open>{e}\<close>.
\<close>

datatype message = MsgCopy string | MsgError path exn | MsgScan path | MsgTask string

type_synonym fingerprint = "string \<times> nat \<times> int"

text \<open>
  \<open>volumes\<close> is the file system; \<open>faults\<close> injects an I/O failure (permission denied,
  device not ready, disk full) into a system call: a call \<open>c\<close> with \<open>faults w c = Some msg\<close>
  raises \<^verbatim>\<open>OSError(msg)\<close>. \<open>has_file_attributes\<close> tells whether \<^verbatim>\<open>os.stat_result\<close> has
  the field \<^verbatim>\<open>st_file_attributes\<close> (it has on Windows only). \<open>now\<close> stamps new directories.
  \<open>trace\<close> lists the system calls made so far, oldest first; it is never read.
\<close>

record world =
  volumes :: "string \<Rightarrow> node option"
  faults :: "syscall \<Rightarrow> string option"
  has_file_attributes :: bool
  now :: rat
  SEEN_FILES_FINGERPRINTS :: "fingerprint set"
  trace :: "syscall list"
  stdout :: "message list"

subsection \<open>Paths\<close>

definition path_join :: "path \<Rightarrow> string \<Rightarrow> path" where
  "path_join p c = (fst p, snd p @ [c])"

definition path_name :: "path \<Rightarrow> string" where
  "path_name p = (if snd p = [] then [] else last (snd p))"

definition path_parent :: "path \<Rightarrow> path" where
  "path_parent p = (fst p, butlast (snd p))"

text \<open>
  \<^verbatim>\<open>root_path.relative_to(src_folder)\<close> followed by \<^verbatim>\<open>dst_folder / rel_path\<close>.
  \<^verbatim>\<open>relative_to\<close> raises \<^verbatim>\<open>ValueError\<close> unless its argument is a prefix of the path; every
  directory that \<^verbatim>\<open>os.walk(src_folder)\<close> yields is \<^verbatim>\<open>src_folder\<close> or \<^verbatim>\<open>join\<close> of a directory
  yielded before and a name, hence extends \<^verbatim>\<open>src_folder\<close>, so the model keeps the relative
  part only.
\<close>

definition relative_to :: "path \<Rightarrow> path \<Rightarrow> string list" where
  "relative_to p base = drop (length (snd base)) (snd p)"

definition path_join_rel :: "path \<Rightarrow> string list \<Rightarrow> path" where
  "path_join_rel p rel = (fst p, snd p @ rel)"

subsection \<open>The file system tree\<close>

fun lookup :: "node \<Rightarrow> string list \<Rightarrow> node option" where
  "lookup n [] = Some n"
| "lookup (File s t a) (c # cs) = None"
| "lookup (Dir s t a es) (c # cs) =
     (case map_of es c of None \<Rightarrow> None | Some m \<Rightarrow> lookup m cs)"

definition node_at :: "world \<Rightarrow> path \<Rightarrow> node option" where
  "node_at w p = (case volumes w (fst p) of None \<Rightarrow> None | Some r \<Rightarrow> lookup r (snd p))"

fun stat_of :: "node \<Rightarrow> stat_result" where
  "stat_of (File s t a) =
     \<lparr>st_isdir = False, st_size = s, st_mtime = t, st_file_attributes = a\<rparr>"
| "stat_of (Dir s t a es) =
     \<lparr>st_isdir = True, st_size = s, st_mtime = t, st_file_attributes = a\<rparr>"

fun is_Dir :: "node \<Rightarrow> bool" where
  "is_Dir (Dir s t a es) = True"
| "is_Dir (File s t a) = False"

text \<open>
  \<open>make_dirs\<close> is the effect of \<^verbatim>\<open>mkdir(parents=True, exist_ok=True)\<close> on a tree: every
  missing directory along the path is created, an existing directory is kept, a file in
  the way is an error. \<open>write_file\<close> is the effect of writing a file into an existing
  directory, replacing a file of that name.
\<close>

definition FILE_ATTRIBUTE_DIRECTORY :: "32 word" where
  "FILE_ATTRIBUTE_DIRECTORY = 16"

definition FILE_ATTRIBUTE_HIDDEN :: "32 word" where
  "FILE_ATTRIBUTE_HIDDEN = 2"

fun make_dirs :: "rat \<Rightarrow> path \<Rightarrow> node \<Rightarrow> string list \<Rightarrow> exn + node" where
  "make_dirs t p (Dir s t' a es) [] = Inr (Dir s t' a es)"
| "make_dirs t p (File s t' a) [] = Inl (FileExistsError p)"
| "make_dirs t p (File s t' a) (c # cs) = Inl (NotADirectoryError p)"
| "make_dirs t p (Dir s t' a es) (c # cs) =
     (case make_dirs t p
             (case map_of es c of
                None \<Rightarrow> Dir 0 t FILE_ATTRIBUTE_DIRECTORY []
              | Some m \<Rightarrow> m) cs of
        Inl e \<Rightarrow> Inl e
      | Inr m' \<Rightarrow> Inr (Dir s t' a (AList.update c m' es)))"

fun write_file :: "path \<Rightarrow> node \<Rightarrow> string list \<Rightarrow> node \<Rightarrow> exn + node" where
  "write_file p (File s t a) [] f = Inr f"
| "write_file p (Dir s t a es) [] f = Inl (IsADirectoryError p)"
| "write_file p (File s t a) (c # cs) f = Inl (NotADirectoryError p)"
| "write_file p (Dir s t a es) (c # cs) f =
     (case map_of es c of
        None \<Rightarrow>
          (if cs = [] then Inr (Dir s t a (AList.update c f es))
           else Inl (FileNotFoundError p))
      | Some m \<Rightarrow>
          (case write_file p m cs f of
             Inl e \<Rightarrow> Inl e
           | Inr m' \<Rightarrow> Inr (Dir s t a (AList.update c m' es))))"

subsection \<open>System calls\<close>

definition log_call :: "world \<Rightarrow> syscall \<Rightarrow> world" where
  "log_call w c = w\<lparr>trace := trace w @ [c]\<rparr>"

definition print :: "world \<Rightarrow> message \<Rightarrow> world" where
  "print w m = w\<lparr>stdout := stdout w @ [m]\<rparr>"

text \<open>
  \<^verbatim>\<open>os.stat(path)\<close> and \<^verbatim>\<open>Path.stat()\<close>: \<open>stat_at\<close> is what the call answers in a world,
  \<open>os_stat\<close> is the call.
\<close>

definition stat_at :: "world \<Rightarrow> path \<Rightarrow> exn + stat_result" where
  "stat_at w p =
     (case faults w (Stat p) of
        Some msg \<Rightarrow> Inl (OSError msg)
      | None \<Rightarrow>
          (case node_at w p of
             None \<Rightarrow> Inl (FileNotFoundError p)
           | Some n \<Rightarrow> Inr (stat_of n)))"

definition os_stat :: "world \<Rightarrow> path \<Rightarrow> (exn + stat_result) \<times> world" where
  "os_stat w p = (stat_at w p, log_call w (Stat p))"

text \<open>
  \<^verbatim>\<open>Path.exists()\<close>, \<^verbatim>\<open>Path.is_dir()\<close> and \<^verbatim>\<open>Path.is_file()\<close> call \<^verbatim>\<open>stat\<close>, answer
  \<^verbatim>\<open>False\<close> when the path is not there and let every other \<^verbatim>\<open>OSError\<close> through. This is
  \<^verbatim>\<open>pathlib\<close> as it is up to Python 3.12, where the three methods catch only the errors
  that \<^verbatim>\<open>_ignore_error\<close> accepts. A \<^verbatim>\<open>pathlib\<close> in which they answer \<^verbatim>\<open>False\<close> on every
  \<^verbatim>\<open>OSError\<close> is not modelled.
\<close>

fun ignore_error :: "exn \<Rightarrow> bool" where
  "ignore_error (FileNotFoundError p) = True"
| "ignore_error (NotADirectoryError p) = True"
| "ignore_error e = False"

definition path_exists :: "world \<Rightarrow> path \<Rightarrow> (exn + bool) \<times> world" where
  "path_exists w p =
     (case os_stat w p of
        (Inl e, w1) \<Rightarrow> if ignore_error e then (Inr False, w1) else (Inl e, w1)
      | (Inr st, w1) \<Rightarrow> (Inr True, w1))"

definition path_is_dir :: "world \<Rightarrow> path \<Rightarrow> (exn + bool) \<times> world" where
  "path_is_dir w p =
     (case os_stat w p of
        (Inl e, w1) \<Rightarrow> if ignore_error e then (Inr False, w1) else (Inl e, w1)
      | (Inr st, w1) \<Rightarrow> (Inr (st_isdir st), w1))"

definition path_is_file :: "world \<Rightarrow> path \<Rightarrow> (exn + bool) \<times> world" where
  "path_is_file w p =
     (case os_stat w p of
        (Inl e, w1) \<Rightarrow> if ignore_error e then (Inr False, w1) else (Inl e, w1)
      | (Inr st, w1) \<Rightarrow> (Inr (\<not> st_isdir st), w1))"

text \<open>\<^verbatim>\<open>p.mkdir(parents=True, exist_ok=True)\<close>.\<close>

definition path_mkdir :: "world \<Rightarrow> path \<Rightarrow> (exn + unit) \<times> world" where
  "path_mkdir w p =
     (let w1 = log_call w (Mkdir p) in
      case faults w (Mkdir p) of
        Some msg \<Rightarrow> (Inl (OSError msg), w1)
      | None \<Rightarrow>
          (case volumes w (fst p) of
             None \<Rightarrow> (Inl (FileNotFoundError p), w1)
           | Some r \<Rightarrow>
               (case make_dirs (now w) p r (snd p) of
                  Inl e \<Rightarrow> (Inl e, w1)
                | Inr r' \<Rightarrow> (Inr (), w1\<lparr>volumes := (volumes w1)(fst p := Some r')\<rparr>))))"

text \<open>
  \<^verbatim>\<open>shutil.copy2(src, dst)\<close>: when \<^verbatim>\<open>dst\<close> is a directory the file goes into it under the
  name of the source; copying a file onto itself is \<^verbatim>\<open>SameFileError\<close>; the copy has the
  size, the modification time and the attributes of the source. A copy that fails is
  taken to fail before its first write.
\<close>

definition shutil_copy2 :: "world \<Rightarrow> path \<Rightarrow> path \<Rightarrow> (exn + unit) \<times> world" where
  "shutil_copy2 w src dst =
     (let w1 = log_call w (Copy2 src dst) in
      case faults w (Copy2 src dst) of
        Some msg \<Rightarrow> (Inl (OSError msg), w1)
      | None \<Rightarrow>
          (let real_dst = (case node_at w dst of
                             Some (Dir s t a es) \<Rightarrow> path_join dst (path_name src)
                           | _ \<Rightarrow> dst)
           in case node_at w src of
                None \<Rightarrow> (Inl (FileNotFoundError src), w1)
              | Some (Dir s t a es) \<Rightarrow> (Inl (IsADirectoryError src), w1)
              | Some (File s t a) \<Rightarrow>
                  if real_dst = src then (Inl (SameFileError src real_dst), w1)
                  else
                    (case volumes w (fst real_dst) of
                       None \<Rightarrow> (Inl (FileNotFoundError real_dst), w1)
                     | Some r \<Rightarrow>
                         (case write_file real_dst r (snd real_dst) (File s t a) of
                            Inl e \<Rightarrow> (Inl e, w1)
                          | Inr r' \<Rightarrow>
                              (Inr (),
                               w1\<lparr>volumes := (volumes w1)(fst real_dst := Some r')\<rparr>)))))"

subsection \<open>Python floats\<close>

text \<open>
  A Python float is an IEEE 754 double: 53 significant bits, the exponent of a normal
  number at least \<open>- 1022\<close>. \<open>exponent x\<close> is the \<open>e\<close> with \<open>2 ^ e \<le> \<bar>x\<bar> < 2 ^ (e + 1)\<close>,
  \<open>round_double x\<close> is the double nearest to \<open>x\<close>, ties going to the even significand, and
  \<^verbatim>\<open>x + y\<close> on floats is the exact sum rounded in this way. Overflow to infinity is left
  out: \<^verbatim>\<open>st_mtime\<close> comes from a 64-bit count of ticks, far below the largest double.
\<close>

definition pow2 :: "int \<Rightarrow> rat" where
  "pow2 e = (if 0 \<le> e then 2 ^ nat e else 1 / 2 ^ nat (- e))"

definition exponent :: "rat \<Rightarrow> int" where
  "exponent x =
     (case quotient_of \<bar>x\<bar> of
        (p, q) \<Rightarrow> let e = bitlen p - bitlen q in if pow2 e \<le> \<bar>x\<bar> then e else e - 1)"

definition round_half_even :: "rat \<Rightarrow> int" where
  "round_half_even q =
     (let f = \<lfloor>q\<rfloor>; d = q - of_int f
      in if d < 1 / 2 then f else if 1 / 2 < d then f + 1 else if even f then f else f + 1)"

definition round_double :: "rat \<Rightarrow> rat" where
  "round_double x =
     (if x = 0 then 0
      else let ulp = pow2 (max (exponent x) (- 1022) - 52)
           in of_int (round_half_even (x / ulp)) * ulp)"

definition float_add :: "rat \<Rightarrow> rat \<Rightarrow> rat" where
  "float_add x y = round_double (x + y)"

section \<open>The core logic\<close>

subsection \<open>\<^verbatim>\<open>is_hidden\<close> (lines 61 to 65)\<close>

text \<open>
  \<open>read_hidden\<close> is the body of the \<^verbatim>\<open>try\<close>:
  \<^verbatim>\<open>bool(os.stat(path).st_file_attributes & stat.FILE_ATTRIBUTE_HIDDEN)\<close>, which raises when
  \<^verbatim>\<open>os.stat\<close> does and when the result has no such field.
\<close>

definition read_hidden :: "world \<Rightarrow> path \<Rightarrow> (exn + bool) \<times> world" where
  "read_hidden w p =
     (case os_stat w p of
        (Inl e, w1) \<Rightarrow> (Inl e, w1)
      | (Inr st, w1) \<Rightarrow>
          if has_file_attributes w1
          then (Inr (st_file_attributes st AND FILE_ATTRIBUTE_HIDDEN \<noteq> 0), w1)
          else (Inl AttributeError, w1))"

definition is_hidden :: "world \<Rightarrow> path \<Rightarrow> bool \<times> world" where
  "is_hidden w p =
     (case read_hidden w p of
        (Inl e, w1) \<Rightarrow> (False, w1)
      | (Inr b, w1) \<Rightarrow> (b, w1))"

subsection \<open>\<^verbatim>\<open>get_file_fingerprint\<close> (lines 67 to 72)\<close>

text \<open>\<^verbatim>\<open>int(x)\<close> of a float truncates towards zero.\<close>

definition py_int :: "rat \<Rightarrow> int" where
  "py_int x = (if 0 \<le> x then \<lfloor>x\<rfloor> else \<lceil>x\<rceil>)"

definition get_file_fingerprint :: "world \<Rightarrow> path \<Rightarrow> fingerprint option \<times> world" where
  "get_file_fingerprint w p =
     (case os_stat w p of
        (Inl e, w1) \<Rightarrow> (None, w1)
      | (Inr st, w1) \<Rightarrow> (Some (path_name p, st_size st, py_int (st_mtime st)), w1))"

subsection \<open>\<^verbatim>\<open>process_file\<close> (lines 74 to 112)\<close>

text \<open>
  The function returns \<^verbatim>\<open>None\<close> at each of its four exits. The model returns which exit
  was taken: line 85 is \<open>SkippedDuplicate\<close>, line 104 is \<open>SkippedUnchanged\<close>, the end of
  the \<^verbatim>\<open>try\<close> block after \<^verbatim>\<open>copy2\<close> is \<open>Copied\<close>, the exception handler is \<open>Failed\<close>.
  An \<open>evaluation\<close> is the record of one call: its two arguments, the value of the local
  variable \<^verbatim>\<open>fingerprint\<close> and the exit taken.
\<close>

datatype outcome = Copied | SkippedDuplicate | SkippedUnchanged | Failed exn

record evaluation =
  ev_src :: path
  ev_dst :: path
  ev_fingerprint :: "fingerprint option"
  ev_outcome :: outcome

definition evaluation :: "path \<Rightarrow> path \<Rightarrow> fingerprint option \<Rightarrow> outcome \<Rightarrow> evaluation" where
  "evaluation s d fp out = \<lparr>ev_src = s, ev_dst = d, ev_fingerprint = fp, ev_outcome = out\<rparr>"

text \<open>Lines 107 to 109: the copy.\<close>

definition copy_step :: "world \<Rightarrow> path \<Rightarrow> path \<Rightarrow> (exn + outcome) \<times> world" where
  "copy_step w src_file dst_file =
     (case path_mkdir w (path_parent dst_file) of
        (Inl e, w1) \<Rightarrow> (Inl e, w1)
      | (Inr u, w1) \<Rightarrow>
          (case shutil_copy2 (print w1 (MsgCopy (path_name src_file))) src_file dst_file of
             (Inl e, w2) \<Rightarrow> (Inl e, w2)
           | (Inr u', w2) \<Rightarrow> (Inr Copied, w2)))"

text \<open>Lines 90 to 109: the body of the \<^verbatim>\<open>try\<close>; \<open>Inl e\<close> is the exception \<open>e\<close> raised in it.\<close>

definition try_body :: "world \<Rightarrow> path \<Rightarrow> path \<Rightarrow> (exn + outcome) \<times> world" where
  "try_body w src_file dst_file =
     (case path_exists w dst_file of
        (Inl e, w1) \<Rightarrow> (Inl e, w1)
      | (Inr ex, w1) \<Rightarrow>
          if ex then
            (case os_stat w1 src_file of
               (Inl e, w2) \<Rightarrow> (Inl e, w2)
             | (Inr src_stat, w2) \<Rightarrow>
                 (case os_stat w2 dst_file of
                    (Inl e, w3) \<Rightarrow> (Inl e, w3)
                  | (Inr dst_stat, w3) \<Rightarrow>
                      (let size_match = (st_size src_stat = st_size dst_stat);
                           time_match = (st_mtime src_stat \<le> float_add (st_mtime dst_stat) 5)
                       in if size_match \<and> time_match then (Inr SkippedUnchanged, w3)
                          else copy_step w3 src_file dst_file)))
          else copy_step w1 src_file dst_file)"

text \<open>
  Lines 111 and 112: the handler \<^verbatim>\<open>except Exception as e\<close>, applied to what the \<^verbatim>\<open>try\<close>
  block did; \<open>guarded\<close> is the whole \<^verbatim>\<open>try\<close> statement, lines 88 to 112.
\<close>

definition handler :: "path \<Rightarrow> (exn + outcome) \<times> world \<Rightarrow> outcome \<times> world" where
  "handler src_file r =
     (case r of
        (Inl e, w1) \<Rightarrow> (Failed e, print w1 (MsgError src_file e))
      | (Inr out, w1) \<Rightarrow> (out, w1))"

definition guarded :: "world \<Rightarrow> path \<Rightarrow> path \<Rightarrow> outcome \<times> world" where
  "guarded w src_file dst_file = handler src_file (try_body w src_file dst_file)"

text \<open>
  \<^verbatim>\<open>if fingerprint:\<close> tests a tuple of three components or \<^verbatim>\<open>None\<close>; the tuple is never
  empty, hence always true.
\<close>

definition process_file :: "world \<Rightarrow> path \<Rightarrow> path \<Rightarrow> evaluation \<times> world" where
  "process_file w src_file dst_file =
     (case get_file_fingerprint w src_file of
        (None, w1) \<Rightarrow>
          (case guarded w1 src_file dst_file of
             (out, w2) \<Rightarrow> (evaluation src_file dst_file None out, w2))
      | (Some fingerprint, w1) \<Rightarrow>
          if fingerprint \<in> SEEN_FILES_FINGERPRINTS w1
          then (evaluation src_file dst_file (Some fingerprint) SkippedDuplicate, w1)
          else
            (case guarded
                    (w1\<lparr>SEEN_FILES_FINGERPRINTS :=
                          insert fingerprint (SEEN_FILES_FINGERPRINTS w1)\<rparr>)
                    src_file dst_file of
               (out, w2) \<Rightarrow> (evaluation src_file dst_file (Some fingerprint) out, w2)))"

subsection \<open>\<^verbatim>\<open>sync_folder_recursive\<close> (lines 114 to 126)\<close>

text \<open>
  Lines 125 and 126: \<^verbatim>\<open>for file in files\<close>. The walkers return the evaluations they
  made, in order.
\<close>

fun process_files :: "world \<Rightarrow> path \<Rightarrow> path \<Rightarrow> string list \<Rightarrow> evaluation list \<times> world" where
  "process_files w root_path current_dst_dir [] = ([], w)"
| "process_files w root_path current_dst_dir (file # files) =
     (case process_file w (path_join root_path file) (path_join current_dst_dir file) of
        (ev, w1) \<Rightarrow>
          (case process_files w1 root_path current_dst_dir files of
             (evs, w2) \<Rightarrow> (ev # evs, w2)))"

text \<open>
  A walker ends in one of three ways: it returns, an exception leaves it (nothing in the
  walkers catches one; it ends the program), or the walk is cut short (see below).
\<close>

datatype ending = Returned | Raised exn | Unfinished

text \<open>
  \<^verbatim>\<open>os.walk(top)\<close> is a generator. It lists the directory \<^verbatim>\<open>top\<close>, yields the triple
  \<^verbatim>\<open>(top, dirs, files)\<close>, where \<^verbatim>\<open>files\<close> holds every entry that is not a directory, and
  only when it is resumed goes on to the directories in \<^verbatim>\<open>dirs\<close>, one after the other,
  listing each of them when it gets there. So a directory is read after the body of the
  loop has run for everything before it, and what the body has copied into it by then
  is found. A directory that cannot be listed (it is gone, or is a file by now) yields
  nothing and raises nothing. There are no symbolic links. The reads of the walk are
  not logged in the trace.

  \<open>walk_loop\<close> is the loop of lines 120 to 126 over \<^verbatim>\<open>os.walk(root_path)\<close>: the body runs
  where the generator yields. When the copies go below the folder that is walked the walk
  can descend without end, so \<open>walk_loop\<close> takes the number of levels it may descend;
  when that is used up the ending is \<open>Unfinished\<close> and what was done so far is returned.
\<close>

fun walk_dirs ::
  "(world \<Rightarrow> path \<Rightarrow> (evaluation list \<times> ending) \<times> world) \<Rightarrow> world \<Rightarrow> path \<Rightarrow> string list
     \<Rightarrow> (evaluation list \<times> ending) \<times> world" where
  "walk_dirs walk w top_dir [] = (([], Returned), w)"
| "walk_dirs walk w top_dir (dirname # dirs) =
     (case walk w (path_join top_dir dirname) of
        ((evs, Returned), w1) \<Rightarrow>
          (case walk_dirs walk w1 top_dir dirs of
             ((evs', r), w2) \<Rightarrow> ((evs @ evs', r), w2))
      | ((evs, r), w1) \<Rightarrow> ((evs, r), w1))"

fun walk_loop ::
  "nat \<Rightarrow> world \<Rightarrow> path \<Rightarrow> path \<Rightarrow> path \<Rightarrow> (evaluation list \<times> ending) \<times> world" where
  "walk_loop 0 w src_folder dst_folder root_path = (([], Unfinished), w)"
| "walk_loop (Suc fuel) w src_folder dst_folder root_path =
     (case node_at w root_path of
        Some (Dir s t a es) \<Rightarrow>
          (let dirs = map fst (filter (\<lambda>e. is_Dir (snd e)) es);
               files = map fst (filter (\<lambda>e. \<not> is_Dir (snd e)) es);
               rel_path = relative_to root_path src_folder;
               current_dst_dir = path_join_rel dst_folder rel_path
           in case process_files w root_path current_dst_dir files of
                (evs1, w1) \<Rightarrow>
                  (case walk_dirs (\<lambda>w' p. walk_loop fuel w' src_folder dst_folder p)
                          w1 root_path dirs of
                     ((evs2, r), w2) \<Rightarrow> ((evs1 @ evs2, r), w2)))
      | _ \<Rightarrow> (([], Returned), w))"

definition sync_folder_recursive ::
  "nat \<Rightarrow> world \<Rightarrow> path \<Rightarrow> path \<Rightarrow> (evaluation list \<times> ending) \<times> world" where
  "sync_folder_recursive fuel w src_folder dst_folder =
     (case path_exists w src_folder of
        (Inl e, w1) \<Rightarrow> (([], Raised e), w1)
      | (Inr ex, w1) \<Rightarrow>
          if \<not> ex then (([], Returned), w1)
          else walk_loop fuel w1 src_folder dst_folder src_folder)"

subsection \<open>\<^verbatim>\<open>sync_documents_special\<close> (lines 128 to 145)\<close>

text \<open>\<^verbatim>\<open>src_root.iterdir()\<close>: the entries of the directory, as paths.\<close>

definition iterdir :: "world \<Rightarrow> path \<Rightarrow> exn + path list" where
  "iterdir w p =
     (case node_at w p of
        None \<Rightarrow> Inl (FileNotFoundError p)
      | Some (File s t a) \<Rightarrow> Inl (NotADirectoryError p)
      | Some (Dir s t a es) \<Rightarrow> Inr (map (\<lambda>e. path_join p (fst e)) es))"

text \<open>Lines 142 to 145: what is done with an entry that is not hidden.\<close>

definition dispatch ::
  "nat \<Rightarrow> world \<Rightarrow> path \<Rightarrow> path \<Rightarrow> (evaluation list \<times> ending) \<times> world" where
  "dispatch fuel w dst_root item =
     (case path_is_dir w item of
        (Inl e, w1) \<Rightarrow> (([], Raised e), w1)
      | (Inr d, w1) \<Rightarrow>
          if d then sync_folder_recursive fuel w1 item (path_join dst_root (path_name item))
          else
            (case path_is_file w1 item of
               (Inl e, w2) \<Rightarrow> (([], Raised e), w2)
             | (Inr f, w2) \<Rightarrow>
                 if f then
                   (case process_file w2 item (path_join dst_root (path_name item)) of
                      (ev, w3) \<Rightarrow> (([ev], Returned), w3))
                 else (([], Returned), w2)))"

text \<open>Lines 136 to 145: \<^verbatim>\<open>for item in src_root.iterdir()\<close>.\<close>

fun special_loop ::
  "nat \<Rightarrow> world \<Rightarrow> path \<Rightarrow> path list \<Rightarrow> (evaluation list \<times> ending) \<times> world" where
  "special_loop fuel w dst_root [] = (([], Returned), w)"
| "special_loop fuel w dst_root (item # items) =
     (case is_hidden w item of
        (hid, w1) \<Rightarrow>
          if hid then special_loop fuel w1 dst_root items
          else
            (case dispatch fuel w1 dst_root item of
               ((evs, Returned), w2) \<Rightarrow>
                 (case special_loop fuel w2 dst_root items of
                    ((evs', r), w3) \<Rightarrow> ((evs @ evs', r), w3))
             | ((evs, r), w2) \<Rightarrow> ((evs, r), w2)))"

definition sync_documents_special ::
  "nat \<Rightarrow> world \<Rightarrow> path \<Rightarrow> path \<Rightarrow> (evaluation list \<times> ending) \<times> world" where
  "sync_documents_special fuel w src_root dst_root =
     (case path_exists w src_root of
        (Inl e, w1) \<Rightarrow> (([], Raised e), w1)
      | (Inr ex, w1) \<Rightarrow>
          if \<not> ex then (([], Returned), w1)
          else
            (let w2 = print w1 (MsgScan src_root) in
             case iterdir w2 src_root of
               Inl e \<Rightarrow> (([], Raised e), w2)
             | Inr items \<Rightarrow> special_loop fuel w2 dst_root items))"

subsection \<open>The task loop of \<^verbatim>\<open>main\<close> (lines 158 to 165)\<close>

text \<open>
  A task is \<^verbatim>\<open>(src, subfolder, check_hidden)\<close>. The list \<^verbatim>\<open>TASKS\<close> and \<^verbatim>\<open>DEST_ROOT\<close> are
  configuration and are parameters here. Every walk of the loop may descend \<open>fuel\<close>
  levels.
\<close>

type_synonym task = "path \<times> string \<times> bool"

fun main_loop ::
  "nat \<Rightarrow> world \<Rightarrow> path \<Rightarrow> task list \<Rightarrow> (evaluation list \<times> ending) \<times> world" where
  "main_loop fuel w DEST_ROOT [] = (([], Returned), w)"
| "main_loop fuel w DEST_ROOT ((src, subfolder, check_hidden) # tasks) =
     (let full_dest = path_join DEST_ROOT subfolder;
          w0 = print w (MsgTask subfolder)
      in case (if check_hidden then sync_documents_special fuel w0 src full_dest
               else sync_folder_recursive fuel w0 src full_dest) of
           ((evs, Returned), w1) \<Rightarrow>
             (case main_loop fuel w1 DEST_ROOT tasks of
                ((evs', r), w2) \<Rightarrow> ((evs @ evs', r), w2))
         | ((evs, r), w1) \<Rightarrow> ((evs, r), w1))"

section \<open>Notions used to state the properties\<close>

text \<open>
  A run is what the walkers and the task loop do to the world: evaluations, \<^verbatim>\<open>stat\<close>
  calls that only read, and printed lines, one after the other. \<open>run w evs w'\<close> says
  that the world \<open>w\<close> becomes \<open>w'\<close> through the evaluations \<open>evs\<close>, in this order.
\<close>

inductive run :: "world \<Rightarrow> evaluation list \<Rightarrow> world \<Rightarrow> bool" where
  run_skip: "run w [] w"
| run_stat: "run w [] (log_call w (Stat p))"
| run_print: "run w [] (print w m)"
| run_eval: "process_file w s d = (ev, w') \<Longrightarrow> run w [ev] w'"
| run_seq: "run w evs1 w1 \<Longrightarrow> run w1 evs2 w2 \<Longrightarrow> run w (evs1 @ evs2) w2"

text \<open>
  The registry after a list of evaluations, and what the duplicate check must have
  answered in each of them, given the registry before.
\<close>

fun seen_after :: "fingerprint set \<Rightarrow> evaluation list \<Rightarrow> fingerprint set" where
  "seen_after S [] = S"
| "seen_after S (ev # evs) = seen_after (S \<union> set_option (ev_fingerprint ev)) evs"

fun dedup_consistent :: "fingerprint set \<Rightarrow> evaluation list \<Rightarrow> bool" where
  "dedup_consistent S [] = True"
| "dedup_consistent S (ev # evs) =
     ((ev_outcome ev = SkippedDuplicate) = (\<exists>fp \<in> S. ev_fingerprint ev = Some fp)
      \<and> dedup_consistent (S \<union> set_option (ev_fingerprint ev)) evs)"

text \<open>
  The files of a directory tree, as paths relative to its root, in the order in which
  \<^verbatim>\<open>os.walk\<close> meets them; the number of levels of directories in a tree; and trees in
  which no directory lists a name twice.
\<close>

fun files_of :: "node \<Rightarrow> string list list" where
  "files_of (File s t a) = []"
| "files_of (Dir s t a es) =
     map (\<lambda>e. [fst e]) (filter (\<lambda>e. \<not> is_Dir (snd e)) es)
     @ concat (map (\<lambda>e. map ((#) (fst e)) (files_of (snd e)))
                   (filter (\<lambda>e. is_Dir (snd e)) es))"

fun depth :: "node \<Rightarrow> nat" where
  "depth (File s t a) = 0"
| "depth (Dir s t a es) = Suc (foldr max (map (\<lambda>e. depth (snd e)) es) 0)"

fun distinct_names :: "node \<Rightarrow> bool" where
  "distinct_names (File s t a) = True"
| "distinct_names (Dir s t a es) =
     (distinct (map fst es) \<and> list_all (\<lambda>e. distinct_names (snd e)) es)"

fun is_skip :: "outcome \<Rightarrow> bool" where
  "is_skip SkippedDuplicate = True"
| "is_skip SkippedUnchanged = True"
| "is_skip out = False"

text \<open>The system calls made between two worlds of a run.\<close>

definition calls_made :: "world \<Rightarrow> world \<Rightarrow> syscall list" where
  "calls_made w w' = drop (length (trace w)) (trace w')"

text \<open>
  Handing each pair of a list to \<open>process_file\<close>, in order; the pair for a relative path
  mirrored from a source root to a destination root; the two arguments of an evaluation.
\<close>

fun process_each :: "world \<Rightarrow> (path \<times> path) list \<Rightarrow> evaluation list \<times> world" where
  "process_each w [] = ([], w)"
| "process_each w ((s, d) # ps) =
     (case process_file w s d of
        (ev, w1) \<Rightarrow> (case process_each w1 ps of (evs, w2) \<Rightarrow> (ev # evs, w2)))"

definition mirrored :: "path \<Rightarrow> path \<Rightarrow> string list \<Rightarrow> path \<times> path" where
  "mirrored src dst rel = (path_join_rel src rel, path_join_rel dst rel)"

definition ev_args :: "evaluation \<Rightarrow> path \<times> path" where
  "ev_args ev = (ev_src ev, ev_dst ev)"



text \<open>Whether a path leads to a directory, in a tree and in a world.\<close>

definition dir_in :: "node \<Rightarrow> string list \<Rightarrow> bool" where
  "dir_in r q = (case lookup r q of None \<Rightarrow> False | Some m \<Rightarrow> is_Dir m)"

definition is_dir_at :: "world \<Rightarrow> path \<Rightarrow> bool" where
  "is_dir_at w q = (case node_at w q of None \<Rightarrow> False | Some m \<Rightarrow> is_Dir m)"

text \<open>
  Two paths lie apart when they are on different drives or neither is an ancestor of
  the other (or equal to it).
\<close>

definition apart :: "path \<Rightarrow> path \<Rightarrow> bool" where
  "apart p q =
     (fst p \<noteq> fst q \<or> (\<not> prefix (snd p) (snd q) \<and> \<not> prefix (snd q) (snd p)))"

section \<open>Example worlds\<close>

text \<open>
  A source drive with a folder \<^verbatim>\<open>docs\<close> and a backup drive with a folder \<^verbatim>\<open>Arch\<close>:
  \<^verbatim>\<open>a.txt\<close> is backed up and unchanged, \<^verbatim>\<open>b.txt\<close> has grown since its backup.
\<close>

definition example_world :: world where
  "example_world =
     \<lparr>volumes =
        [''C:'' \<mapsto> Dir 0 900 16
                   [(''docs'', Dir 0 900 16
                      [(''a.txt'', File 100 1000 32), (''b.txt'', File 120 1007 32)])],
         ''G:'' \<mapsto> Dir 0 900 16
                   [(''Arch'', Dir 0 900 16
                      [(''a.txt'', File 100 1000 32), (''b.txt'', File 100 1000 32)])]],
      faults = (\<lambda>c. None),
      has_file_attributes = True,
      now = 2000,
      SEEN_FILES_FINGERPRINTS = {},
      trace = [],
      stdout = []\<rparr>"

text \<open>
  A file last written in January 2038 and its backup, whose time stamp is a little more
  than 5 seconds older. The sum of the older time stamp and 5 lies half-way between two
  doubles and is rounded up, to the time stamp of the source.
\<close>

definition boundary_world :: world where
  "boundary_world =
     \<lparr>volumes =
        [''C:'' \<mapsto> Dir 0 900 16
                   [(''docs'', Dir 0 900 16
                      [(''a.txt'', File 100 (17592186082149 / 8192) 32)])],
         ''G:'' \<mapsto> Dir 0 900 16
                   [(''Arch'', Dir 0 900 16
                      [(''a.txt'', File 100 (9007199253088767 / 4194304) 32)])]],
      faults = (\<lambda>c. None),
      has_file_attributes = True,
      now = 2000,
      SEEN_FILES_FINGERPRINTS = {},
      trace = [],
      stdout = []\<rparr>"

text \<open>A source folder that is backed up into a folder below itself.\<close>

definition nested_world :: world where
  "nested_world =
     \<lparr>volumes =
        [''C:'' \<mapsto> Dir 0 900 16
                   [(''docs'', Dir 0 900 16
                      [(''a.txt'', File 100 1000 32),
                       (''sub'', Dir 0 900 16 [(''b.txt'', File 200 1000 32)])])]],
      faults = (\<lambda>c. None),
      has_file_attributes = True,
      now = 2000,
      SEEN_FILES_FINGERPRINTS = {},
      trace = [],
      stdout = []\<rparr>"

text \<open>
  A source folder that holds the same file twice, once in a subfolder (the two
  modification times fall into the same second), and an empty backup drive.
\<close>

definition twin_world :: world where
  "twin_world =
     \<lparr>volumes =
        [''C:'' \<mapsto> Dir 0 900 16
                   [(''docs'', Dir 0 900 16
                      [(''a.txt'', File 100 1000 32),
                       (''sub'', Dir 0 900 16 [(''a.txt'', File 100 (2001 / 2) 32)])])],
         ''G:'' \<mapsto> Dir 0 900 16 []],
      faults = (\<lambda>c. None),
      has_file_attributes = True,
      now = 2000,
      SEEN_FILES_FINGERPRINTS = {},
      trace = [],
      stdout = []\<rparr>"

text \<open>An empty backup drive on which the copy of \<^verbatim>\<open>a.txt\<close> fails.\<close>

definition faulty_world :: world where
  "faulty_world =
     \<lparr>volumes =
        [''C:'' \<mapsto> Dir 0 900 16
                   [(''docs'', Dir 0 900 16
                      [(''a.txt'', File 100 1000 32), (''b.txt'', File 120 1007 32)])],
         ''G:'' \<mapsto> Dir 0 900 16 []],
      faults = (\<lambda>c. if c = Copy2 (''C:'', [''docs'', ''a.txt'']) (''G:'', [''Arch'', ''a.txt''])
                     then Some ''disk full'' else None),
      has_file_attributes = True,
      now = 2000,
      SEEN_FILES_FINGERPRINTS = {},
      trace = [],
      stdout = []\<rparr>"

text \<open>
  A source file whose \<^verbatim>\<open>stat\<close> is denied, while the registry already holds the
  fingerprint the file would have.
\<close>

definition unreadable_world :: world where
  "unreadable_world =
     \<lparr>volumes =
        [''C:'' \<mapsto> Dir 0 900 16
                   [(''docs'', Dir 0 900 16 [(''a.txt'', File 100 1000 32)])],
         ''G:'' \<mapsto> Dir 0 900 16 []],
      faults = (\<lambda>c. if c = Stat (''C:'', [''docs'', ''a.txt''])
                     then Some ''access denied'' else None),
      has_file_attributes = True,
      now = 2000,
      SEEN_FILES_FINGERPRINTS = {(''a.txt'', 100, 1000)},
      trace = [],
      stdout = []\<rparr>"

text \<open>
  A source folder that holds the same file twice, once in a subfolder; the first one is
  backed up and unchanged, the second one has no backup.
\<close>

definition backed_up_world :: world where
  "backed_up_world =
     \<lparr>volumes =
        [''C:'' \<mapsto> Dir 0 900 16
                   [(''docs'', Dir 0 900 16
                      [(''a.txt'', File 100 1000 32),
                       (''sub'', Dir 0 900 16 [(''a.txt'', File 100 1000 32)])])],
         ''G:'' \<mapsto> Dir 0 900 16
                   [(''Arch'', Dir 0 900 16 [(''a.txt'', File 100 1000 32)])]],
      faults = (\<lambda>c. None),
      has_file_attributes = True,
      now = 2000,
      SEEN_FILES_FINGERPRINTS = {},
      trace = [],
      stdout = []\<rparr>"

text \<open>
  A source root with a hidden folder, a visible folder that holds a hidden file, a
  hidden file and a plain file.
\<close>

definition hidden_world :: world where
  "hidden_world =
     \<lparr>volumes =
        [''C:'' \<mapsto> Dir 0 900 16
                   [(''docs'', Dir 0 900 16
                      [(''.hidden'', Dir 0 900 18 [(''file.txt'', File 10 1000 32)]),
                       (''visible'', Dir 0 900 16 [(''.secret.txt'', File 20 1000 34)]),
                       (''desktop.ini'', File 30 1000 34),
                       (''note.txt'', File 40 1000 32)])],
         ''G:'' \<mapsto> Dir 0 900 16 []],
      faults = (\<lambda>c. None),
      has_file_attributes = True,
      now = 2000,
      SEEN_FILES_FINGERPRINTS = {},
      trace = [],
      stdout = []\<rparr>"

text \<open>A source root in which \<^verbatim>\<open>stat\<close> of the entry \<^verbatim>\<open>note.txt\<close> is denied.\<close>

definition locked_world :: world where
  "locked_world =
     \<lparr>volumes =
        [''C:'' \<mapsto> Dir 0 900 16
                   [(''docs'', Dir 0 900 16
                      [(''note.txt'', File 40 1000 32), (''other.txt'', File 50 1000 32)])],
         ''G:'' \<mapsto> Dir 0 900 16 []],
      faults = (\<lambda>c. if c = Stat (''C:'', [''docs'', ''note.txt''])
                     then Some ''access denied'' else None),
      has_file_attributes = True,
      now = 2000,
      SEEN_FILES_FINGERPRINTS = {},
      trace = [],
      stdout = []\<rparr>"

text \<open>The world \<open>hidden_world\<close> on a system whose \<^verbatim>\<open>stat\<close> results have no attribute field.\<close>

definition no_attribute_world :: world where
  "no_attribute_world = hidden_world\<lparr>has_file_attributes := False\<rparr>"

section \<open>Basic facts about the system calls\<close>

lemma log_call_fields [simp]:
  "volumes (log_call w c) = volumes w"
  "faults (log_call w c) = faults w"
  "has_file_attributes (log_call w c) = has_file_attributes w"
  "now (log_call w c) = now w"
  "SEEN_FILES_FINGERPRINTS (log_call w c) = SEEN_FILES_FINGERPRINTS w"
  "stdout (log_call w c) = stdout w"
  "trace (log_call w c) = trace w @ [c]"
  by (simp_all add: log_call_def)

lemma print_fields [simp]:
  "volumes (print w m) = volumes w"
  "faults (print w m) = faults w"
  "has_file_attributes (print w m) = has_file_attributes w"
  "now (print w m) = now w"
  "SEEN_FILES_FINGERPRINTS (print w m) = SEEN_FILES_FINGERPRINTS w"
  "stdout (print w m) = stdout w @ [m]"
  "trace (print w m) = trace w"
  by (simp_all add: print_def)

lemma node_at_frame: "volumes w' = volumes w \<Longrightarrow> node_at w' p = node_at w p"
  by (simp add: node_at_def)

lemma stat_at_frame:
  "volumes w' = volumes w \<Longrightarrow> faults w' = faults w \<Longrightarrow> stat_at w' p = stat_at w p"
  by (simp add: stat_at_def node_at_def split: option.splits)

lemma stat_at_simps [simp]:
  "stat_at (log_call w c) p = stat_at w p"
  "stat_at (print w m) p = stat_at w p"
  "stat_at (w\<lparr>SEEN_FILES_FINGERPRINTS := S\<rparr>) p = stat_at w p"
  by (rule stat_at_frame; simp)+

lemma copy_step_result:
  "fst (copy_step w s d) = Inr Copied \<or> (\<exists>e. fst (copy_step w s d) = Inl e)"
  by (auto simp: copy_step_def split: prod.splits sum.splits)

lemma path_mkdir_trace: "trace (snd (path_mkdir w p)) = trace w @ [Mkdir p]"
  by (simp add: path_mkdir_def Let_def log_call_def split: option.splits sum.splits)

lemma shutil_copy2_trace: "trace (snd (shutil_copy2 w s d)) = trace w @ [Copy2 s d]"
  by (simp add: shutil_copy2_def Let_def log_call_def split: option.splits sum.splits node.splits)

lemma copy_step_trace:
  "trace (snd (copy_step w s d)) =
     trace w @ Mkdir (path_parent d) # (if fst (path_mkdir w (path_parent d)) = Inr () then [Copy2 s d] else [])"
  using path_mkdir_trace[of w "path_parent d"] shutil_copy2_trace[of "print (snd (path_mkdir w (path_parent d))) (MsgCopy (path_name s))" s d]
  by (auto simp: copy_step_def print_def split: prod.splits sum.splits)

lemma get_file_fingerprint_eq:
  "get_file_fingerprint w p =
     (case stat_at w p of
        Inl e \<Rightarrow> None
      | Inr st \<Rightarrow> Some (path_name p, st_size st, py_int (st_mtime st)),
      log_call w (Stat p))"
  by (simp add: get_file_fingerprint_def os_stat_def split: sum.splits)

lemma path_exists_eq:
  "path_exists w p =
     (case stat_at w p of
        Inl e \<Rightarrow> if ignore_error e then Inr False else Inl e
      | Inr st \<Rightarrow> Inr True,
      log_call w (Stat p))"
  by (simp add: path_exists_def os_stat_def split: sum.splits)

lemma try_body_existing:
  assumes "stat_at w src_file = Inr src_stat"
      and "stat_at w dst_file = Inr dst_stat"
  shows "try_body w src_file dst_file =
           (let w3 = log_call (log_call (log_call w (Stat dst_file)) (Stat src_file)) (Stat dst_file)
            in if st_size src_stat = st_size dst_stat \<and> st_mtime src_stat \<le> float_add (st_mtime dst_stat) 5
               then (Inr SkippedUnchanged, w3)
               else copy_step w3 src_file dst_file)"
  by (simp add: try_body_def path_exists_eq os_stat_def assms Let_def)

lemma path_mkdir_fields [simp]:
  "faults (snd (path_mkdir w p)) = faults w"
  "has_file_attributes (snd (path_mkdir w p)) = has_file_attributes w"
  "now (snd (path_mkdir w p)) = now w"
  "SEEN_FILES_FINGERPRINTS (snd (path_mkdir w p)) = SEEN_FILES_FINGERPRINTS w"
  "stdout (snd (path_mkdir w p)) = stdout w"
  by (simp_all add: path_mkdir_def Let_def split: option.splits sum.splits)

lemma shutil_copy2_fields [simp]:
  "faults (snd (shutil_copy2 w s d)) = faults w"
  "has_file_attributes (snd (shutil_copy2 w s d)) = has_file_attributes w"
  "now (snd (shutil_copy2 w s d)) = now w"
  "SEEN_FILES_FINGERPRINTS (snd (shutil_copy2 w s d)) = SEEN_FILES_FINGERPRINTS w"
  "stdout (snd (shutil_copy2 w s d)) = stdout w"
  by (simp_all add: shutil_copy2_def Let_def split: option.splits sum.splits node.splits)

lemma copy_step_eq:
  "copy_step w s d =
     (case fst (path_mkdir w (path_parent d)) of
        Inl e \<Rightarrow> (Inl e, snd (path_mkdir w (path_parent d)))
      | Inr u \<Rightarrow>
          (case fst (shutil_copy2 (print (snd (path_mkdir w (path_parent d))) (MsgCopy (path_name s))) s d) of
             Inl e \<Rightarrow> Inl e
           | Inr u' \<Rightarrow> Inr Copied,
           snd (shutil_copy2 (print (snd (path_mkdir w (path_parent d))) (MsgCopy (path_name s))) s d)))"
  by (auto simp: copy_step_def split: prod.splits sum.splits)

lemma copy_step_fields [simp]:
  "faults (snd (copy_step w s d)) = faults w"
  "has_file_attributes (snd (copy_step w s d)) = has_file_attributes w"
  "now (snd (copy_step w s d)) = now w"
  "SEEN_FILES_FINGERPRINTS (snd (copy_step w s d)) = SEEN_FILES_FINGERPRINTS w"
  by (simp_all add: copy_step_eq split: sum.splits)

lemma try_body_eq:
  "try_body w s d =
     (case stat_at w d of
        Inl e \<Rightarrow>
          if ignore_error e then copy_step (log_call w (Stat d)) s d
          else (Inl e, log_call w (Stat d))
      | Inr dst_stat \<Rightarrow>
          (case stat_at w s of
             Inl e \<Rightarrow> (Inl e, log_call (log_call w (Stat d)) (Stat s))
           | Inr src_stat \<Rightarrow>
               if st_size src_stat = st_size dst_stat \<and> st_mtime src_stat \<le> float_add (st_mtime dst_stat) 5
               then (Inr SkippedUnchanged,
                     log_call (log_call (log_call w (Stat d)) (Stat s)) (Stat d))
               else copy_step (log_call (log_call (log_call w (Stat d)) (Stat s)) (Stat d)) s d))"
  by (simp add: try_body_def path_exists_eq os_stat_def Let_def split: sum.splits)

lemma try_body_fields [simp]:
  "faults (snd (try_body w s d)) = faults w"
  "has_file_attributes (snd (try_body w s d)) = has_file_attributes w"
  "now (snd (try_body w s d)) = now w"
  "SEEN_FILES_FINGERPRINTS (snd (try_body w s d)) = SEEN_FILES_FINGERPRINTS w"
  by (simp_all add: try_body_eq split: sum.splits)

lemma try_body_result:
  "fst (try_body w s d) = Inr SkippedUnchanged \<or> fst (try_body w s d) = Inr Copied
   \<or> (\<exists>e. fst (try_body w s d) = Inl e)"
  using copy_step_result
  by (auto simp: try_body_eq split: sum.splits)

lemma guarded_eq:
  "guarded w s d =
     (case fst (try_body w s d) of
        Inl e \<Rightarrow> (Failed e, print (snd (try_body w s d)) (MsgError s e))
      | Inr out \<Rightarrow> (out, snd (try_body w s d)))"
  by (cases "try_body w s d") (simp add: guarded_def handler_def split: sum.splits)

lemma guarded_fields [simp]:
  "faults (snd (guarded w s d)) = faults w"
  "has_file_attributes (snd (guarded w s d)) = has_file_attributes w"
  "now (snd (guarded w s d)) = now w"
  "SEEN_FILES_FINGERPRINTS (snd (guarded w s d)) = SEEN_FILES_FINGERPRINTS w"
  by (simp_all add: guarded_eq split: sum.splits)

lemma guarded_result:
  "fst (guarded w s d) = SkippedUnchanged \<or> fst (guarded w s d) = Copied
   \<or> (\<exists>e. fst (guarded w s d) = Failed e \<and> fst (try_body w s d) = Inl e)"
  using try_body_result[of w s d] by (auto simp: guarded_eq split: sum.splits)

lemma process_file_eq:
  "process_file w s d =
     (case stat_at w s of
        Inl e \<Rightarrow>
          (evaluation s d None (fst (guarded (log_call w (Stat s)) s d)),
           snd (guarded (log_call w (Stat s)) s d))
      | Inr st \<Rightarrow>
          (let fp = (path_name s, st_size st, py_int (st_mtime st)) in
           if fp \<in> SEEN_FILES_FINGERPRINTS w
           then (evaluation s d (Some fp) SkippedDuplicate, log_call w (Stat s))
           else
             (evaluation s d (Some fp)
                (fst (guarded ((log_call w (Stat s))
                         \<lparr>SEEN_FILES_FINGERPRINTS := insert fp (SEEN_FILES_FINGERPRINTS w)\<rparr>) s d)),
              snd (guarded ((log_call w (Stat s))
                         \<lparr>SEEN_FILES_FINGERPRINTS := insert fp (SEEN_FILES_FINGERPRINTS w)\<rparr>) s d))))"
  by (simp add: process_file_def get_file_fingerprint_eq Let_def split: sum.splits prod.splits)

lemma process_file_args [simp]:
  "ev_src (fst (process_file w s d)) = s"
  "ev_dst (fst (process_file w s d)) = d"
  by (simp_all add: process_file_eq evaluation_def Let_def split: sum.splits)

lemma process_file_fields [simp]:
  "faults (snd (process_file w s d)) = faults w"
  "has_file_attributes (snd (process_file w s d)) = has_file_attributes w"
  "now (snd (process_file w s d)) = now w"
  by (simp_all add: process_file_eq Let_def split: sum.splits)

lemma process_file_registry:
  "SEEN_FILES_FINGERPRINTS (snd (process_file w s d)) =
     SEEN_FILES_FINGERPRINTS w \<union> set_option (ev_fingerprint (fst (process_file w s d)))"
  by (auto simp add: process_file_eq Let_def evaluation_def split: sum.splits)

lemma process_file_duplicate_iff:
  "ev_outcome (fst (process_file w s d)) = SkippedDuplicate \<longleftrightarrow>
     (\<exists>fp. ev_fingerprint (fst (process_file w s d)) = Some fp \<and> fp \<in> SEEN_FILES_FINGERPRINTS w)"
  using guarded_result
  by (simp add: process_file_eq Let_def evaluation_def split: sum.splits)
     (metis outcome.distinct(1,7,9))

lemma process_file_new:
  assumes "stat_at w src_file = Inr src_stat"
      and "(path_name src_file, st_size src_stat, py_int (st_mtime src_stat))
             \<notin> SEEN_FILES_FINGERPRINTS w"
  shows "process_file w src_file dst_file =
           (let fp = (path_name src_file, st_size src_stat, py_int (st_mtime src_stat)) in
            case guarded ((log_call w (Stat src_file))
                      \<lparr>SEEN_FILES_FINGERPRINTS := insert fp (SEEN_FILES_FINGERPRINTS w)\<rparr>)
                   src_file dst_file of
              (out, w2) \<Rightarrow> (evaluation src_file dst_file (Some fp) out, w2))"
  using assms by (simp add: process_file_def get_file_fingerprint_eq Let_def)

section \<open>Every walker is a run\<close>

lemma run_cons: "process_file w s d = (ev, w1) \<Longrightarrow> run w1 evs w2 \<Longrightarrow> run w (ev # evs) w2"
  using run_seq[OF run_eval, of w s d ev w1 evs w2] by simp

lemma run_after_stat: "run (log_call w (Stat p)) evs w' \<Longrightarrow> run w evs w'"
  using run_seq[OF run_stat, of w p evs w'] by simp

lemma run_after_print: "run (print w m) evs w' \<Longrightarrow> run w evs w'"
  using run_seq[OF run_print, of w m evs w'] by simp

lemma process_files_run:
  "process_files w rp cd files = (evs, w') \<Longrightarrow> run w evs w'"
proof (induction files arbitrary: w evs w')
  case Nil
  then show ?case by (auto intro: run_skip)
next
  case (Cons f files)
  then show ?case
    by (auto split: prod.splits intro: run_cons)
qed

text \<open>The walk that \<open>walk_dirs\<close> is given is simplified only where it is applied.\<close>

lemma walk_dirs_cong [cong]:
  "w = w' \<Longrightarrow> top_dir = top_dir' \<Longrightarrow> dirs = dirs' \<Longrightarrow>
     walk_dirs walk w top_dir dirs = walk_dirs walk w' top_dir' dirs'"
  by simp

lemma walk_dirs_run:
  assumes "\<And>w p evs r w'. walk w p = ((evs, r), w') \<Longrightarrow> run w evs w'"
  shows "walk_dirs walk w top_dir dirs = ((evs, r), w') \<Longrightarrow> run w evs w'"
proof (induction dirs arbitrary: w evs r w')
  case Nil
  then show ?case by (auto intro: run_skip)
next
  case (Cons d dirs)
  obtain evs1 r1 w1 where v: "walk w (path_join top_dir d) = ((evs1, r1), w1)"
    by (metis prod.collapse)
  have r1: "run w evs1 w1" using v by (rule assms)
  show ?case
  proof (cases "r1 = Returned")
    case True
    obtain evs2 r2 w2 where l: "walk_dirs walk w1 top_dir dirs = ((evs2, r2), w2)"
      by (metis prod.collapse)
    with Cons.prems v True have "evs = evs1 @ evs2 \<and> w' = w2" by simp
    with r1 Cons.IH[OF l] show ?thesis by (blast intro: run_seq)
  next
    case False
    with Cons.prems v have "evs = evs1 \<and> w' = w1" by (cases r1) simp_all
    with r1 show ?thesis by simp
  qed
qed

lemma walk_loop_run:
  "walk_loop fuel w src dst root_path = ((evs, r), w') \<Longrightarrow> run w evs w'"
proof (induction fuel arbitrary: w root_path evs r w')
  case 0
  then show ?case by (auto intro: run_skip)
next
  case (Suc fuel)
  show ?case
  proof (cases "\<exists>s t a es. node_at w root_path = Some (Dir s t a es)")
    case True
    then obtain s t a es where n: "node_at w root_path = Some (Dir s t a es)" by blast
    let ?files = "map fst (filter (\<lambda>e. \<not> is_Dir (snd e)) es)"
    let ?dirs = "map fst (filter (\<lambda>e. is_Dir (snd e)) es)"
    let ?cur = "path_join_rel dst (relative_to root_path src)"
    obtain evs1 w1 where p: "process_files w root_path ?cur ?files = (evs1, w1)"
      by (metis prod.collapse)
    obtain evs2 r2 w2 where
      d: "walk_dirs (\<lambda>w' p. walk_loop fuel w' src dst p) w1 root_path ?dirs = ((evs2, r2), w2)"
      by (metis prod.collapse)
    have "run w1 evs2 w2"
      using d by (rule walk_dirs_run[rotated]) (rule Suc.IH)
    moreover have "run w evs1 w1" using p by (rule process_files_run)
    moreover have "evs = evs1 @ evs2 \<and> w' = w2"
      using Suc.prems n p d by (simp add: Let_def)
    ultimately show ?thesis by (blast intro: run_seq)
  next
    case False
    then have "walk_loop (Suc fuel) w src dst root_path = (([], Returned), w)"
      by (auto split: option.splits node.splits)
    with Suc.prems show ?thesis by (auto intro: run_skip)
  qed
qed

lemma node_at_simps [simp]:
  "node_at (log_call w c) p = node_at w p"
  "node_at (print w m) p = node_at w p"
  "node_at (w\<lparr>SEEN_FILES_FINGERPRINTS := S\<rparr>) p = node_at w p"
  by (rule node_at_frame; simp)+

lemma path_is_dir_eq:
  "path_is_dir w p =
     (case stat_at w p of
        Inl e \<Rightarrow> if ignore_error e then Inr False else Inl e
      | Inr st \<Rightarrow> Inr (st_isdir st),
      log_call w (Stat p))"
  by (simp add: path_is_dir_def os_stat_def split: sum.splits)

lemma path_is_file_eq:
  "path_is_file w p =
     (case stat_at w p of
        Inl e \<Rightarrow> if ignore_error e then Inr False else Inl e
      | Inr st \<Rightarrow> Inr (\<not> st_isdir st),
      log_call w (Stat p))"
  by (simp add: path_is_file_def os_stat_def split: sum.splits)

lemma read_hidden_eq:
  "read_hidden w p =
     (case stat_at w p of
        Inl e \<Rightarrow> Inl e
      | Inr st \<Rightarrow>
          if has_file_attributes w
          then Inr (st_file_attributes st AND FILE_ATTRIBUTE_HIDDEN \<noteq> 0)
          else Inl AttributeError,
      log_call w (Stat p))"
  by (simp add: read_hidden_def os_stat_def split: sum.splits)

lemma is_hidden_eq:
  "is_hidden w p =
     (case fst (read_hidden w p) of Inl e \<Rightarrow> False | Inr b \<Rightarrow> b, log_call w (Stat p))"
  by (simp add: is_hidden_def read_hidden_eq split: sum.splits)

lemma sync_folder_recursive_eq:
  "sync_folder_recursive fuel w src dst =
     (case fst (path_exists w src) of
        Inl e \<Rightarrow> (([], Raised e), log_call w (Stat src))
      | Inr ex \<Rightarrow>
          if \<not> ex then (([], Returned), log_call w (Stat src))
          else walk_loop fuel (log_call w (Stat src)) src dst src)"
  by (simp add: sync_folder_recursive_def path_exists_eq
           split: sum.splits prod.splits)

lemma sync_folder_recursive_run:
  assumes "sync_folder_recursive fuel w src dst = ((evs, r), w')"
  shows "run w evs w'"
proof (cases "fst (path_exists w src) = Inr True")
  case True
  with assms have "walk_loop fuel (log_call w (Stat src)) src dst src = ((evs, r), w')"
    by (simp add: sync_folder_recursive_eq)
  then show ?thesis by (blast intro: walk_loop_run run_after_stat)
next
  case False
  with assms have "evs = [] \<and> w' = log_call w (Stat src)"
    by (auto simp: sync_folder_recursive_eq split: sum.splits if_splits)
  then show ?thesis by (simp add: run_stat)
qed

lemma dispatch_eq:
  "dispatch fuel w dst_root item =
     (case fst (path_is_dir w item) of
        Inl e \<Rightarrow> (([], Raised e), log_call w (Stat item))
      | Inr d \<Rightarrow>
          if d then sync_folder_recursive fuel (log_call w (Stat item)) item
                      (path_join dst_root (path_name item))
          else
            (case fst (path_is_file w item) of
               Inl e \<Rightarrow> (([], Raised e), log_call (log_call w (Stat item)) (Stat item))
             | Inr f \<Rightarrow>
                 if f then
                   (([fst (process_file (log_call (log_call w (Stat item)) (Stat item)) item
                             (path_join dst_root (path_name item)))], Returned),
                    snd (process_file (log_call (log_call w (Stat item)) (Stat item)) item
                             (path_join dst_root (path_name item))))
                 else (([], Returned), log_call (log_call w (Stat item)) (Stat item))))"
proof -
  obtain ev w3 where pf: "process_file (log_call (log_call w (Stat item)) (Stat item)) item
                             (path_join dst_root (path_name item)) = (ev, w3)"
    by (metis prod.collapse)
  show ?thesis
    unfolding dispatch_def path_is_dir_eq path_is_file_eq
    by (simp add: pf split: sum.splits)
qed

lemma run_stat2: "run w [] (log_call (log_call w (Stat p)) (Stat q))"
  using run_seq[OF run_stat run_stat, of w p q] by simp

lemma dispatch_run:
  assumes "dispatch fuel w dst_root item = ((evs, r), w')"
  shows "run w evs w'"
proof -
  let ?w1 = "log_call w (Stat item)"
  let ?w2 = "log_call ?w1 (Stat item)"
  let ?d = "path_join dst_root (path_name item)"
  show ?thesis
  proof (cases "fst (path_is_dir w item)")
    case (Inl e)
    with assms have "evs = []" "w' = ?w1" by (simp_all add: dispatch_eq)
    then show ?thesis by (simp add: run_stat)
  next
    case d: (Inr d)
    show ?thesis
    proof (cases d)
      case True
      with d assms have "sync_folder_recursive fuel ?w1 item ?d = ((evs, r), w')"
        by (simp add: dispatch_eq)
      then show ?thesis by (blast intro: sync_folder_recursive_run run_after_stat)
    next
      case nd: False
      show ?thesis
      proof (cases "fst (path_is_file w item)")
        case (Inl e)
        with d nd assms have "evs = []" "w' = ?w2" by (simp_all add: dispatch_eq)
        then show ?thesis by (simp add: run_stat2)
      next
        case f: (Inr f)
        show ?thesis
        proof (cases f)
          case True
          with d nd f assms have e: "evs = [fst (process_file ?w2 item ?d)]"
            and w: "w' = snd (process_file ?w2 item ?d)"
            by (simp_all add: dispatch_eq)
          have "run ?w2 evs w'"
            unfolding e w by (rule run_eval) simp
          then show ?thesis by (blast intro: run_after_stat)
        next
          case False
          with d nd f assms have "evs = []" "w' = ?w2" by (simp_all add: dispatch_eq)
          then show ?thesis by (simp add: run_stat2)
        qed
      qed
    qed
  qed
qed

lemma special_loop_run:
  "special_loop fuel w dst_root items = ((evs, r), w') \<Longrightarrow> run w evs w'"
proof (induction items arbitrary: w evs r w')
  case Nil
  then show ?case by (auto intro: run_skip)
next
  case (Cons item items)
  let ?w1 = "log_call w (Stat item)"
  show ?case
  proof (cases "fst (is_hidden w item)")
    case True
    with Cons.prems have "special_loop fuel ?w1 dst_root items = ((evs, r), w')"
      by (simp add: is_hidden_eq)
    then show ?thesis by (blast intro: Cons.IH run_after_stat)
  next
    case False
    obtain evs1 r1 w2 where d: "dispatch fuel ?w1 dst_root item = ((evs1, r1), w2)"
      by (metis prod.collapse)
    have r1: "run ?w1 evs1 w2" using d by (rule dispatch_run)
    show ?thesis
    proof (cases "r1 = Returned")
      case stop: False
      with Cons.prems False d have "evs = evs1 \<and> w' = w2"
        by (cases r1) (auto simp: is_hidden_eq)
      with r1 show ?thesis by (blast intro: run_after_stat)
    next
      case True
      obtain evs2 r2 w3 where l: "special_loop fuel w2 dst_root items = ((evs2, r2), w3)"
        by (metis prod.collapse)
      with Cons.prems False d True have "evs = evs1 @ evs2 \<and> w' = w3"
        by (auto simp: is_hidden_eq)
      with r1 Cons.IH[OF l] show ?thesis by (blast intro: run_after_stat run_seq)
    qed
  qed
qed

lemma sync_documents_special_run:
  assumes "sync_documents_special fuel w src dst = ((evs, r), w')"
  shows "run w evs w'"
proof -
  let ?w1 = "log_call w (Stat src)"
  consider (loop) items where
      "special_loop fuel (print ?w1 (MsgScan src)) dst items = ((evs, r), w')"
    | (stop) "evs = []" "w' = ?w1"
    | (err) "evs = []" "w' = print ?w1 (MsgScan src)"
    using assms
    by (auto simp: sync_documents_special_def path_exists_eq Let_def
             split: sum.splits if_splits)
  then show ?thesis
  proof cases
    case loop
    then show ?thesis by (blast intro: special_loop_run run_after_stat run_after_print)
  next
    case stop
    then show ?thesis by (simp add: run_stat)
  next
    case err
    then show ?thesis by (blast intro: run_print run_after_stat)
  qed
qed

lemma main_loop_run:
  "main_loop fuel w DEST_ROOT tasks = ((evs, r), w') \<Longrightarrow> run w evs w'"
proof (induction tasks arbitrary: w evs r w')
  case Nil
  then show ?case by (auto intro: run_skip)
next
  case (Cons t tasks)
  obtain src sub hid where t: "t = (src, sub, hid)" by (cases t)
  let ?w0 = "print w (MsgTask sub)"
  let ?walk = "if hid then sync_documents_special fuel ?w0 src (path_join DEST_ROOT sub)
               else sync_folder_recursive fuel ?w0 src (path_join DEST_ROOT sub)"
  obtain evs1 r1 w1 where d: "?walk = ((evs1, r1), w1)"
    by (metis prod.collapse)
  have "run ?w0 evs1 w1"
    using d by (auto split: if_splits intro: sync_documents_special_run sync_folder_recursive_run)
  then have r1: "run w evs1 w1" by (rule run_after_print)
  show ?case
  proof (cases "r1 = Returned")
    case False
    with Cons.prems d have "evs = evs1 \<and> w' = w1" by (cases r1) (auto simp: t Let_def)
    with r1 show ?thesis by simp
  next
    case True
    obtain evs2 r2 w2 where l: "main_loop fuel w1 DEST_ROOT tasks = ((evs2, r2), w2)"
      by (metis prod.collapse)
    with Cons.prems d True have "evs = evs1 @ evs2 \<and> w' = w2" by (auto simp: t Let_def)
    with r1 Cons.IH[OF l] show ?thesis by (blast intro: run_seq)
  qed
qed

lemma seen_after_append: "seen_after S (a @ b) = seen_after (seen_after S a) b"
  by (induction a arbitrary: S) simp_all

lemma dedup_consistent_append:
  "dedup_consistent S (a @ b) \<longleftrightarrow> dedup_consistent S a \<and> dedup_consistent (seen_after S a) b"
  by (induction a arbitrary: S) simp_all

lemma run_registry:
  "run w evs w' \<Longrightarrow>
     SEEN_FILES_FINGERPRINTS w' = seen_after (SEEN_FILES_FINGERPRINTS w) evs
     \<and> dedup_consistent (SEEN_FILES_FINGERPRINTS w) evs"
proof (induction rule: run.induct)
  case (run_eval w s d ev w')
  then have ev: "ev = fst (process_file w s d)" and w': "w' = snd (process_file w s d)"
    by simp_all
  show ?case
    unfolding ev w'
    using process_file_registry[of w s d] process_file_duplicate_iff[of w s d]
    by auto
next
  case (run_seq w evs1 w1 evs2 w2)
  then show ?case by (simp add: seen_after_append dedup_consistent_append)
qed simp_all

lemma dedup_registered:
  "dedup_consistent S evs \<Longrightarrow> fp \<in> S \<Longrightarrow> ev \<in> set evs \<Longrightarrow> ev_fingerprint ev = Some fp
     \<Longrightarrow> ev_outcome ev = SkippedDuplicate"
proof (induction evs arbitrary: S)
  case Nil
  then show ?case by simp
next
  case (Cons e evs)
  show ?case
  proof (cases "ev = e")
    case True
    with Cons.prems show ?thesis by auto
  next
    case False
    with Cons.prems have "ev \<in> set evs" by simp
    moreover have "fp \<in> S \<union> set_option (ev_fingerprint e)" using Cons.prems by simp
    moreover have "dedup_consistent (S \<union> set_option (ev_fingerprint e)) evs"
      using Cons.prems by simp
    ultimately show ?thesis using Cons.IH Cons.prems(4) by blast
  qed
qed

text \<open>A run through \<open>a @ ev # b\<close> passes through the call that made \<open>ev\<close>.\<close>

lemma run_split:
  "run w evs w' \<Longrightarrow> evs = a @ ev # b \<Longrightarrow>
     \<exists>wa wb. run w a wa \<and> process_file wa (ev_src ev) (ev_dst ev) = (ev, wb) \<and> run wb b w'"
proof (induction arbitrary: a ev b rule: run.induct)
  case (run_eval w s d ev' w')
  then have "a = []" "b = []" "ev' = ev"
    by (simp_all add: Cons_eq_append_conv)
  with run_eval show ?case
    by (metis fst_conv process_file_args run_skip)
next
  case (run_seq w evs1 w1 evs2 w2)
  from run_seq.prems consider
      (left) c where "evs1 = a @ ev # c" "b = c @ evs2"
    | (right) c where "a = evs1 @ c" "evs2 = c @ ev # b"
    by (auto simp: append_eq_append_conv2 append_eq_Cons_conv Cons_eq_append_conv)
  then show ?case
  proof cases
    case left
    from run_seq.IH(1)[OF left(1)] obtain wa wb where
      "run w a wa" "process_file wa (ev_src ev) (ev_dst ev) = (ev, wb)" "run wb c w1"
      by blast
    with run_seq.hyps(2) left(2) show ?thesis by (blast intro: run.run_seq)
  next
    case right
    from run_seq.IH(2)[OF right(2)] obtain wa wb where
      "run w1 c wa" "process_file wa (ev_src ev) (ev_dst ev) = (ev, wb)" "run wb b w2"
      by blast
    with run_seq.hyps(1) right(1) show ?thesis by (blast intro: run.run_seq)
  qed
qed simp_all

lemma walk_loop_unfold:
  "0 < fuel \<Longrightarrow>
     walk_loop fuel w src_folder dst_folder root_path =
       (case node_at w root_path of
          Some (Dir s t a es) \<Rightarrow>
            (case process_files w root_path
                    (path_join_rel dst_folder (relative_to root_path src_folder))
                    (map fst (filter (\<lambda>e. \<not> is_Dir (snd e)) es)) of
               (evs1, w1) \<Rightarrow>
                 (case walk_dirs (\<lambda>w' p. walk_loop (fuel - 1) w' src_folder dst_folder p)
                         w1 root_path (map fst (filter (\<lambda>e. is_Dir (snd e)) es)) of
                    ((evs2, r), w2) \<Rightarrow> ((evs1 @ evs2, r), w2)))
        | _ \<Rightarrow> (([], Returned), w))"
  by (cases fuel) (simp_all add: Let_def split: option.splits node.splits cong del: walk_dirs_cong)

lemma float_add_1000: "float_add 1000 5 = 1005"
  by code_simp

lemmas eval_defs =
  sync_folder_recursive_def sync_documents_special_def dispatch_def iterdir_def
  process_file_def get_file_fingerprint_def guarded_def handler_def try_body_def copy_step_def
  path_exists_def path_is_dir_def path_is_file_def is_hidden_def read_hidden_def
  os_stat_def stat_at_def node_at_def path_mkdir_def shutil_copy2_def
  log_call_def print_def evaluation_def py_int_def
  path_join_def path_name_def path_parent_def relative_to_def path_join_rel_def
  FILE_ATTRIBUTE_DIRECTORY_def FILE_ATTRIBUTE_HIDDEN_def Let_def float_add_1000
  walk_loop_unfold

lemma float_add_boundary: "float_add (9007199253088767 / 4194304) 5 = 17592186082149 / 8192"
  by code_simp

lemma floor_boundary: "\<lfloor>17592186082149 / 8192 :: rat\<rfloor> = 2147483652"
  by code_simp

lemma floor_half: "\<lfloor>2001 / 2 :: rat\<rfloor> = 1000"
  by (rule floor_unique) simp_all

lemma seen_after_eq:
  "seen_after S evs = S \<union> {fp. \<exists>e \<in> set evs. ev_fingerprint e = Some fp}"
proof (induction evs arbitrary: S)
  case Nil
  show ?case by simp
next
  case (Cons e evs)
  show ?case
    unfolding seen_after.simps Cons.IH
    by (cases "ev_fingerprint e") auto
qed

lemma process_file_duplicate_world:
  assumes "ev_outcome (fst (process_file w s d)) = SkippedDuplicate"
  shows "snd (process_file w s d) = log_call w (Stat s)"
proof -
  have "fst (guarded w0 s d) \<noteq> SkippedDuplicate" for w0
    using guarded_result[of w0 s d] by auto
  with assms show ?thesis
    by (auto simp: process_file_eq Let_def evaluation_def split: sum.splits if_splits)
qed

lemma path_mkdir_frame:
  assumes "volumes w2 = volumes w" "faults w2 = faults w" "now w2 = now w"
  shows "fst (path_mkdir w2 p) = fst (path_mkdir w p)"
    and "volumes (snd (path_mkdir w2 p)) = volumes (snd (path_mkdir w p))"
  using assms by (simp_all add: path_mkdir_def Let_def split: option.splits sum.splits)

lemma shutil_copy2_frame:
  assumes "volumes w2 = volumes w" "faults w2 = faults w"
  shows "fst (shutil_copy2 w2 s d) = fst (shutil_copy2 w s d)"
    and "volumes (snd (shutil_copy2 w2 s d)) = volumes (snd (shutil_copy2 w s d))"
  using assms node_at_frame[OF assms(1)]
  by (simp_all add: shutil_copy2_def Let_def split: option.splits sum.splits node.splits)

lemma path_mkdir_now [simp]: "now (snd (path_mkdir w p)) = now w"
  by simp

text \<open>What the copy step raises depends on the file system and the faults only.\<close>

lemma copy_step_raises:
  assumes "volumes w2 = volumes w" "faults w2 = faults w" "now w2 = now w"
  shows "fst (path_mkdir w (path_parent d)) = Inl e \<Longrightarrow> fst (copy_step w2 s d) = Inl e"
    and "fst (path_mkdir w (path_parent d)) = Inr () \<Longrightarrow>
         fst (shutil_copy2 (snd (path_mkdir w (path_parent d))) s d) = Inl e \<Longrightarrow>
         fst (copy_step w2 s d) = Inl e"
proof -
  let ?m = "snd (path_mkdir w (path_parent d))"
  let ?m2 = "print (snd (path_mkdir w2 (path_parent d))) (MsgCopy (path_name s))"
  have f: "fst (path_mkdir w2 (path_parent d)) = fst (path_mkdir w (path_parent d))"
    using assms by (rule path_mkdir_frame)
  have v: "volumes ?m2 = volumes ?m"
    using path_mkdir_frame(2)[OF assms] by simp
  have c: "fst (shutil_copy2 ?m2 s d) = fst (shutil_copy2 ?m s d)"
    using v by (rule shutil_copy2_frame) (simp add: assms)
  show "fst (path_mkdir w (path_parent d)) = Inl e \<Longrightarrow> fst (copy_step w2 s d) = Inl e"
    by (simp add: copy_step_eq f)
  show "fst (path_mkdir w (path_parent d)) = Inr () \<Longrightarrow>
         fst (shutil_copy2 ?m s d) = Inl e \<Longrightarrow> fst (copy_step w2 s d) = Inl e"
    by (simp add: copy_step_eq f c)
qed

text \<open>The world in which \<open>process_file\<close> enters its \<^verbatim>\<open>try\<close> statement.\<close>

lemma process_file_guarded:
  assumes "ev_outcome (fst (process_file w s d)) \<noteq> SkippedDuplicate"
  shows "process_file w s d =
           (let entry = (log_call w (Stat s))
                  \<lparr>SEEN_FILES_FINGERPRINTS :=
                     SEEN_FILES_FINGERPRINTS w
                       \<union> set_option (ev_fingerprint (fst (process_file w s d)))\<rparr>
            in (evaluation s d (ev_fingerprint (fst (process_file w s d)))
                  (fst (guarded entry s d)),
                snd (guarded entry s d)))"
proof (cases "stat_at w s")
  case (Inl e)
  have e: "(log_call w (Stat s))\<lparr>SEEN_FILES_FINGERPRINTS := SEEN_FILES_FINGERPRINTS w\<rparr>
          = log_call w (Stat s)"
    by (simp add: log_call_def)
  from Inl show ?thesis
    by (simp add: process_file_eq evaluation_def Let_def e)
next
  case (Inr st)
  with assms show ?thesis
    by (simp add: process_file_eq evaluation_def Let_def split: if_splits)
qed

lemma calls_made_simps [simp]:
  "calls_made w w = []"
  "calls_made w (log_call w c) = [c]"
  "calls_made w (log_call (log_call w c) c') = [c, c']"
  "calls_made w (log_call (log_call (log_call w c) c') c'') = [c, c', c'']"
  by (simp_all add: calls_made_def)

lemma calls_made_trans:
  "trace w1 = trace w @ xs \<Longrightarrow> trace w2 = trace w1 @ ys \<Longrightarrow> calls_made w w2 = xs @ ys"
  by (simp add: calls_made_def)

lemma copy_step_calls:
  "calls_made w (snd (copy_step w s d)) =
     Mkdir (path_parent d) # (if fst (path_mkdir w (path_parent d)) = Inr () then [Copy2 s d] else [])"
  by (simp add: calls_made_def copy_step_trace)

lemma try_body_trace: "\<exists>xs. trace (snd (try_body w s d)) = trace w @ xs"
  using copy_step_trace by (simp add: try_body_eq split: sum.splits)

lemma try_body_cases:
  obtains (c1) "try_body w s d = copy_step (log_call w (Stat d)) s d"
    | (c3) "try_body w s d =
              copy_step (log_call (log_call (log_call w (Stat d)) (Stat s)) (Stat d)) s d"
    | (n1) e where "try_body w s d = (Inl e, log_call w (Stat d))"
    | (n2) e where "try_body w s d = (Inl e, log_call (log_call w (Stat d)) (Stat s))"
    | (n3) "try_body w s d =
              (Inr SkippedUnchanged, log_call (log_call (log_call w (Stat d)) (Stat s)) (Stat d))"
proof (cases "stat_at w d")
  case (Inl e)
  then show ?thesis
    by (cases "ignore_error e") (auto simp: try_body_eq intro: c1 n1)
next
  case ds: (Inr ds)
  show ?thesis
  proof (cases "stat_at w s")
    case (Inl e)
    with ds show ?thesis by (auto simp: try_body_eq intro: n2)
  next
    case (Inr ss)
    with ds show ?thesis
      by (cases "st_size ss = st_size ds \<and> st_mtime ss \<le> float_add (st_mtime ds) 5")
         (auto simp: try_body_eq intro: n3 c3)
  qed
qed

lemma try_body_copy_step:
  assumes "c \<in> set (calls_made w (snd (try_body w s d)))" and "\<And>p. c \<noteq> Stat p"
  shows "\<exists>w3. volumes w3 = volumes w \<and> faults w3 = faults w \<and> now w3 = now w
            \<and> try_body w s d = copy_step w3 s d
            \<and> c \<in> set (calls_made w3 (snd (copy_step w3 s d)))"
proof -
  let ?w1 = "log_call w (Stat d)"
  let ?w3 = "log_call (log_call ?w1 (Stat s)) (Stat d)"
  show ?thesis
  proof (cases w s d rule: try_body_cases)
    case c1
    have "calls_made w (snd (copy_step ?w1 s d)) = [Stat d] @ calls_made ?w1 (snd (copy_step ?w1 s d))"
      by (rule calls_made_trans[of ?w1]) (simp_all add: copy_step_trace calls_made_def)
    with c1 assms show ?thesis by (intro exI[of _ ?w1]) auto
  next
    case c3
    have "calls_made w (snd (copy_step ?w3 s d))
            = [Stat d, Stat s, Stat d] @ calls_made ?w3 (snd (copy_step ?w3 s d))"
      by (rule calls_made_trans[of ?w3]) (simp_all add: copy_step_trace calls_made_def)
    with c3 assms show ?thesis by (intro exI[of _ ?w3]) auto
  next
    case n1
    with assms show ?thesis by simp
  next
    case n2
    with assms show ?thesis by simp
  next
    case n3
    with assms show ?thesis by simp
  qed
qed

lemma guarded_calls: "calls_made w (snd (guarded w s d)) = calls_made w (snd (try_body w s d))"
  by (simp add: guarded_eq calls_made_def split: sum.splits)

lemma guarded_raised:
  "fst (try_body w s d) = Inl e \<Longrightarrow>
     guarded w s d = (Failed e, print (snd (try_body w s d)) (MsgError s e))"
  by (simp add: guarded_eq)

lemma guarded_failed:
  "fst (guarded w s d) = Failed e \<Longrightarrow>
     fst (try_body w s d) = Inl e \<and> snd (guarded w s d) = print (snd (try_body w s d)) (MsgError s e)"
  using try_body_result[of w s d] by (auto simp: guarded_eq split: sum.splits)

lemma process_file_calls:
  assumes "ev_outcome (fst (process_file w s d)) \<noteq> SkippedDuplicate"
  shows "\<exists>entry. volumes entry = volumes w \<and> faults entry = faults w \<and> now entry = now w
           \<and> ev_outcome (fst (process_file w s d)) = fst (guarded entry s d)
           \<and> snd (process_file w s d) = snd (guarded entry s d)
           \<and> calls_made w (snd (process_file w s d))
                = Stat s # calls_made entry (snd (try_body entry s d))"
proof -
  let ?entry = "(log_call w (Stat s))
                  \<lparr>SEEN_FILES_FINGERPRINTS :=
                     SEEN_FILES_FINGERPRINTS w
                       \<union> set_option (ev_fingerprint (fst (process_file w s d)))\<rparr>"
  have pf: "process_file w s d =
              (evaluation s d (ev_fingerprint (fst (process_file w s d))) (fst (guarded ?entry s d)),
               snd (guarded ?entry s d))"
    using process_file_guarded[OF assms] by (simp add: Let_def)
  have o: "ev_outcome (fst (process_file w s d)) = fst (guarded ?entry s d)"
    by (subst pf) (simp add: evaluation_def)
  have w': "snd (process_file w s d) = snd (guarded ?entry s d)"
    by (subst pf) simp
  obtain xs where xs: "trace (snd (try_body ?entry s d)) = trace ?entry @ xs"
    using try_body_trace by blast
  have "trace (snd (guarded ?entry s d)) = trace ?entry @ xs"
    using xs by (simp add: guarded_eq split: sum.splits)
  then have "calls_made w (snd (guarded ?entry s d)) = [Stat s] @ xs"
    by (intro calls_made_trans[of ?entry]) simp_all
  moreover have "calls_made ?entry (snd (try_body ?entry s d)) = xs"
    using xs by (simp add: calls_made_def)
  ultimately have c: "calls_made w (snd (process_file w s d))
                        = Stat s # calls_made ?entry (snd (try_body ?entry s d))"
    by (simp add: w')
  show ?thesis
    by (intro exI[of _ ?entry] conjI o w' c) simp_all
qed

lemma process_files_Cons:
  "process_files w rp cd (f # files) =
     (fst (process_file w (path_join rp f) (path_join cd f))
        # fst (process_files (snd (process_file w (path_join rp f) (path_join cd f))) rp cd files),
      snd (process_files (snd (process_file w (path_join rp f) (path_join cd f))) rp cd files))"
  by (simp split: prod.splits)

lemma process_files_args:
  "map ev_src (fst (process_files w rp cd files)) = map (path_join rp) files
   \<and> map ev_dst (fst (process_files w rp cd files)) = map (path_join cd) files"
  by (induction files arbitrary: w) (simp_all add: process_files_Cons del: process_files.simps(2))


lemma try_body_first_call:
  "\<exists>xs. calls_made w (snd (try_body w s d)) = Stat d # xs"
proof (cases w s d rule: try_body_cases)
  case c1
  have "calls_made w (snd (copy_step (log_call w (Stat d)) s d))
          = [Stat d] @ calls_made (log_call w (Stat d)) (snd (copy_step (log_call w (Stat d)) s d))"
    by (rule calls_made_trans[of "log_call w (Stat d)"])
       (simp_all add: copy_step_trace calls_made_def)
  with c1 show ?thesis by simp
next
  case c3
  let ?w3 = "log_call (log_call (log_call w (Stat d)) (Stat s)) (Stat d)"
  have "calls_made w (snd (copy_step ?w3 s d))
          = [Stat d, Stat s, Stat d] @ calls_made ?w3 (snd (copy_step ?w3 s d))"
    by (rule calls_made_trans[of ?w3]) (simp_all add: copy_step_trace calls_made_def)
  with c3 show ?thesis by simp
qed simp_all

lemma try_body_absent:
  assumes "stat_at w d = Inl e" "ignore_error e"
  shows "try_body w s d = copy_step (log_call w (Stat d)) s d"
  using assms by (simp add: try_body_eq)

lemma process_files_ev_args:
  "map ev_args (fst (process_files w rp cd files)) = map (\<lambda>f. (path_join rp f, path_join cd f)) files"
  by (induction files arbitrary: w)
     (simp_all add: process_files_Cons ev_args_def del: process_files.simps(2))

lemma files_of_Dir_iff:
  "rel \<in> set (files_of (Dir s t a es)) \<longleftrightarrow>
     (\<exists>e \<in> set es. \<not> is_Dir (snd e) \<and> rel = [fst e])
     \<or> (\<exists>e \<in> set es. is_Dir (snd e) \<and> (\<exists>r \<in> set (files_of (snd e)). rel = fst e # r))"
proof -
  have "rel \<in> set (map (\<lambda>e. [fst e]) (filter (\<lambda>e. \<not> is_Dir (snd e)) es))
          \<longleftrightarrow> (\<exists>e \<in> set es. \<not> is_Dir (snd e) \<and> rel = [fst e])"
    by (simp add: image_iff Bex_def; force)
  moreover have "rel \<in> set (concat (map (\<lambda>e. map ((#) (fst e)) (files_of (snd e)))
                                       (filter (\<lambda>e. is_Dir (snd e)) es)))
          \<longleftrightarrow> (\<exists>e \<in> set es. is_Dir (snd e) \<and> (\<exists>r \<in> set (files_of (snd e)). rel = fst e # r))"
    by (simp add: image_iff Bex_def; force)
  ultimately show ?thesis by simp
qed

lemma files_of_nonempty: "[] \<notin> set (files_of n)"
  by (cases n) auto

lemma is_Dir_iff: "is_Dir n \<longleftrightarrow> (\<forall>s t a. n \<noteq> File s t a)"
  by (cases n) auto

lemma files_of_lookup:
  "distinct_names n \<Longrightarrow>
     rel \<in> set (files_of n) \<longleftrightarrow> rel \<noteq> [] \<and> (\<exists>s t a. lookup n rel = Some (File s t a))"
proof (induction n arbitrary: rel rule: files_of.induct)
  case (1 s t a)
  then show ?case by (cases rel) auto
next
  case (2 s t a es)
  from "2.prems" have d: "distinct (map fst es)"
    and sub: "\<And>e. e \<in> set es \<Longrightarrow> distinct_names (snd e)"
    by (auto simp: list_all_iff)
  have m: "map_of es c = Some m \<longleftrightarrow> (c, m) \<in> set es" for c m
    using d by simp
  show ?case
  proof (cases rel)
    case Nil
    then show ?thesis using files_of_nonempty[of "Dir s t a es"] by simp
  next
    case (Cons c cs)
    show ?thesis
    proof (cases "map_of es c")
      case None
      then have "c \<notin> fst ` set es" by (simp add: map_of_eq_None_iff)
      then have "rel \<notin> set (files_of (Dir s t a es))"
        unfolding files_of_Dir_iff Cons by force
      with None Cons show ?thesis by simp
    next
      case (Some m)
      then have mem: "(c, m) \<in> set es" using m by simp
      have uniq: "e \<in> set es \<Longrightarrow> fst e = c \<Longrightarrow> e = (c, m)" for e
        using eq_key_imp_eq_value[OF d mem, of "snd e"] by (cases e) auto
      show ?thesis
      proof (cases "is_Dir m")
        case True
        have ih: "cs \<in> set (files_of m) \<longleftrightarrow> cs \<noteq> [] \<and> (\<exists>s t a. lookup m cs = Some (File s t a))"
          using "2.IH"[of "(c, m)" cs] mem True sub[OF mem] by simp
        have "rel \<in> set (files_of (Dir s t a es)) \<longleftrightarrow> cs \<in> set (files_of m)"
        proof
          assume "rel \<in> set (files_of (Dir s t a es))"
          then consider e where "e \<in> set es" "\<not> is_Dir (snd e)" "c # cs = [fst e]"
            | e r where "e \<in> set es" "is_Dir (snd e)" "r \<in> set (files_of (snd e))" "c # cs = fst e # r"
            unfolding files_of_Dir_iff Cons by blast
          then show "cs \<in> set (files_of m)"
          proof cases
            case 1
            then have "e = (c, m)" using uniq by simp
            with 1 True show ?thesis by simp
          next
            case 2
            then have "e = (c, m)" using uniq by simp
            with 2 show ?thesis by simp
          qed
        next
          assume "cs \<in> set (files_of m)"
          then show "rel \<in> set (files_of (Dir s t a es))"
            unfolding files_of_Dir_iff Cons using mem True
            by (intro disjI2 bexI[of _ "(c, m)"]) simp_all
        qed
        also have "\<dots> \<longleftrightarrow> (\<exists>s t a. lookup m cs = Some (File s t a))"
          using ih True by (cases cs) (auto simp: is_Dir_iff)
        finally show ?thesis using Some Cons by simp
      next
        case False
        then obtain s' t' a' where f: "m = File s' t' a'" by (cases m) auto
        have "rel \<in> set (files_of (Dir s t a es)) \<longleftrightarrow> cs = []"
        proof
          assume "rel \<in> set (files_of (Dir s t a es))"
          then consider e where "e \<in> set es" "\<not> is_Dir (snd e)" "c # cs = [fst e]"
            | e r where "e \<in> set es" "is_Dir (snd e)" "r \<in> set (files_of (snd e))" "c # cs = fst e # r"
            unfolding files_of_Dir_iff Cons by blast
          then show "cs = []"
          proof cases
            case 1
            then show ?thesis by simp
          next
            case 2
            then have "e = (c, m)" using uniq by simp
            with 2 False show ?thesis by simp
          qed
        next
          assume "cs = []"
          then show "rel \<in> set (files_of (Dir s t a es))"
            unfolding files_of_Dir_iff Cons using mem False
            by (intro disjI1 bexI[of _ "(c, m)"]) simp_all
        qed
        also have "\<dots> \<longleftrightarrow> (\<exists>s t a. lookup m cs = Some (File s t a))"
          unfolding f by (cases cs) auto
        finally show ?thesis using Some Cons by simp
      qed
    qed
  qed
qed

lemma distinct_concat_keyed:
  assumes "distinct (map k es)"
      and "\<And>e. e \<in> set es \<Longrightarrow> distinct (f e)"
      and "\<And>e x. e \<in> set es \<Longrightarrow> x \<in> set (f e) \<Longrightarrow> key x = k e"
  shows "distinct (concat (map f es))"
  using assms
proof (induction es)
  case Nil
  show ?case by simp
next
  case (Cons e es)
  have "set (f e) \<inter> set (f e') = {}" if "e' \<in> set es" for e'
  proof -
    have "k e \<notin> k ` set es" using Cons.prems(1) by simp
    then have "k e' \<noteq> k e" using that by (metis imageI)
    then show ?thesis using Cons.prems(3)[of e] Cons.prems(3)[of e'] that by fastforce
  qed
  moreover have "distinct (concat (map f es))"
    using Cons.prems by (intro Cons.IH) auto
  ultimately show ?case using Cons.prems(2)[of e] by auto
qed

lemma files_of_distinct: "distinct_names n \<Longrightarrow> distinct (files_of n)"
proof (induction n rule: files_of.induct)
  case (1 s t a)
  show ?case by simp
next
  case (2 s t a es)
  let ?fs = "filter (\<lambda>e. \<not> is_Dir (snd e)) es"
  let ?ds = "filter (\<lambda>e. is_Dir (snd e)) es"
  from "2.prems" have d: "distinct (map fst es)"
    and sub: "\<And>e. e \<in> set es \<Longrightarrow> distinct_names (snd e)"
    by (auto simp: list_all_iff)
  have "distinct (map (\<lambda>c. [c]) (map fst ?fs))"
    using distinct_map_filter[OF d, of "\<lambda>e. \<not> is_Dir (snd e)"]
    by (subst distinct_map) (simp add: inj_on_def)
  then have a: "distinct (map (\<lambda>e. [fst e]) ?fs)"
    by (simp add: o_def)
  have b: "distinct (concat (map (\<lambda>e. map ((#) (fst e)) (files_of (snd e))) ?ds))"
  proof (rule distinct_concat_keyed[where k = fst and key = hd])
    show "distinct (map fst ?ds)" using d by (rule distinct_map_filter)
    show "distinct (map ((#) (fst e)) (files_of (snd e)))" if "e \<in> set ?ds" for e
      using "2.IH"[OF that] sub that by (simp add: distinct_map)
    show "hd x = fst e" if "e \<in> set ?ds" "x \<in> set (map ((#) (fst e)) (files_of (snd e)))" for e x
      using that by auto
  qed
  have c: "set (map (\<lambda>e. [fst e]) ?fs)
             \<inter> set (concat (map (\<lambda>e. map ((#) (fst e)) (files_of (snd e))) ?ds)) = {}"
    using files_of_nonempty by fastforce
  show ?case using a b c by simp
qed

lemma path_join_rel_Nil [simp]: "path_join_rel p [] = p"
  by (simp add: path_join_rel_def)


lemma lookup_append:
  "lookup r (p @ q) = (case lookup r p of None \<Rightarrow> None | Some m \<Rightarrow> lookup m q)"
proof (induction p arbitrary: r)
  case Nil
  show ?case by simp
next
  case (Cons c cs)
  show ?case
  proof (cases r)
    case (File s t a)
    then show ?thesis by simp
  next
    case (Dir s t a es)
    then show ?thesis using Cons.IH by (simp split: option.splits)
  qed
qed


lemma path_name_join [simp]: "path_name (path_join p c) = c"
  by (simp add: path_name_def path_join_def)

lemma is_Dir_stat [simp]: "st_isdir (stat_of n) = is_Dir n"
  by (cases n) simp_all




lemma dir_in_simps [simp]:
  "dir_in r [] = is_Dir r"
  "dir_in (File s t a) (c # cs) = False"
  "dir_in (Dir s t a es) (c # cs) = (case map_of es c of None \<Rightarrow> False | Some m \<Rightarrow> dir_in m cs)"
  by (simp_all add: dir_in_def split: option.splits)

lemma make_dirs_new_dirs:
  "make_dirs t p r path = Inr r' \<Longrightarrow> dir_in r' q \<Longrightarrow> \<not> dir_in r q \<Longrightarrow> prefix q path"
proof (induction path arbitrary: r r' q)
  case Nil
  then show ?case by (cases r) auto
next
  case (Cons c cs)
  from Cons.prems(1) obtain s t' a es where r: "r = Dir s t' a es"
    by (cases r) auto
  let ?m0 = "case map_of es c of None \<Rightarrow> Dir 0 t FILE_ATTRIBUTE_DIRECTORY [] | Some m \<Rightarrow> m"
  from Cons.prems(1) r obtain m' where m': "make_dirs t p ?m0 cs = Inr m'"
    and r': "r' = Dir s t' a (AList.update c m' es)"
    by (auto split: sum.splits)
  show ?case
  proof (cases q)
    case Nil
    then show ?thesis by simp
  next
    case q: (Cons c' qs)
    show ?thesis
    proof (cases "c' = c")
      case False
      with Cons.prems(2,3) show ?thesis
        unfolding r r' q by (simp add: update_conv')
    next
      case True
      from Cons.prems(2) have d': "dir_in m' qs"
        unfolding r' q True by (simp add: update_conv')
      show ?thesis
      proof (cases "dir_in ?m0 qs")
        case False
        from Cons.IH[OF m' d' False] show ?thesis by (simp add: q True)
      next
        case d0: True
        show ?thesis
        proof (cases "map_of es c")
          case None
          with d0 have "qs = []" by (cases qs) simp_all
          then show ?thesis by (simp add: q True)
        next
          case (Some m)
          with d0 Cons.prems(3) show ?thesis
            unfolding r q True by simp
        qed
      qed
    qed
  qed
qed

lemma write_file_no_new_dirs:
  "write_file p r path (File s t a) = Inr r' \<Longrightarrow> dir_in r' q \<Longrightarrow> dir_in r q"
proof (induction path arbitrary: r r' q)
  case Nil
  then show ?case by (cases r; cases q) auto
next
  case (Cons c cs)
  from Cons.prems(1) obtain s0 t0 a0 es where r: "r = Dir s0 t0 a0 es"
    by (cases r) auto
  show ?case
  proof (cases q)
    case Nil
    then show ?thesis by (simp add: r)
  next
    case q: (Cons c' qs)
    show ?thesis
    proof (cases "map_of es c")
      case None
      with Cons.prems(1) r have r': "r' = Dir s0 t0 a0 (AList.update c (File s t a) es)"
        by (auto split: if_splits)
      from Cons.prems(2) show ?thesis
        unfolding r r' q by (cases "c' = c"; cases qs) (simp_all add: update_conv')
    next
      case (Some m)
      with Cons.prems(1) r obtain m' where m': "write_file p m cs (File s t a) = Inr m'"
        and r': "r' = Dir s0 t0 a0 (AList.update c m' es)"
        by (auto split: sum.splits)
      show ?thesis
      proof (cases "c' = c")
        case False
        with Cons.prems(2) show ?thesis unfolding r r' q by (simp add: update_conv')
      next
        case True
        from Cons.prems(2) have "dir_in m' qs"
          unfolding r' q True by (simp add: update_conv')
        from Cons.IH[OF m' this] show ?thesis
          unfolding r q True by (simp add: Some)
      qed
    qed
  qed
qed

lemma is_dir_at_eq:
  "is_dir_at w q = (case volumes w (fst q) of None \<Rightarrow> False | Some r \<Rightarrow> dir_in r (snd q))"
  by (simp add: is_dir_at_def node_at_def dir_in_def split: option.splits)

lemma path_mkdir_new_dirs:
  assumes "is_dir_at (snd (path_mkdir w p)) q" and "\<not> is_dir_at w q"
  shows "fst q = fst p \<and> prefix (snd q) (snd p)"
proof (cases "fst (path_mkdir w p)")
  case (Inl e)
  then have "volumes (snd (path_mkdir w p)) = volumes w"
    by (auto simp: path_mkdir_def Let_def split: option.splits sum.splits)
  with assms show ?thesis by (simp add: is_dir_at_eq)
next
  case (Inr u)
  then obtain r r' where r: "volumes w (fst p) = Some r"
    and m: "make_dirs (now w) p r (snd p) = Inr r'"
    and v: "volumes (snd (path_mkdir w p)) = (volumes w)(fst p := Some r')"
    by (auto simp: path_mkdir_def Let_def split: option.splits sum.splits)
  show ?thesis
  proof (cases "fst q = fst p")
    case False
    with assms v show ?thesis by (simp add: is_dir_at_eq)
  next
    case True
    with assms v r have "dir_in r' (snd q)" "\<not> dir_in r (snd q)"
      by (simp_all add: is_dir_at_eq)
    from make_dirs_new_dirs[OF m this] True show ?thesis by simp
  qed
qed

lemma shutil_copy2_no_new_dirs:
  assumes "is_dir_at (snd (shutil_copy2 w s d)) q"
  shows "is_dir_at w q"
proof (cases "volumes (snd (shutil_copy2 w s d)) = volumes w")
  case True
  with assms show ?thesis by (simp add: is_dir_at_eq)
next
  case False
  then obtain real_dst r r' sz t a where r: "volumes w (fst real_dst) = Some r"
    and wf: "write_file real_dst r (snd real_dst) (File sz t a) = Inr r'"
    and v: "volumes (snd (shutil_copy2 w s d)) = (volumes w)(fst real_dst := Some r')"
    by (auto simp: shutil_copy2_def Let_def split: option.splits sum.splits node.splits if_splits)
  show ?thesis
  proof (cases "fst q = fst real_dst")
    case False
    with assms v show ?thesis by (simp add: is_dir_at_eq)
  next
    case True
    with assms v have "dir_in r' (snd q)" by (simp add: is_dir_at_eq)
    from write_file_no_new_dirs[OF wf this] r True show ?thesis by (simp add: is_dir_at_eq)
  qed
qed

lemma copy_step_new_dirs:
  assumes "is_dir_at (snd (copy_step w s d)) q" and "\<not> is_dir_at w q"
  shows "fst q = fst d \<and> prefix (snd q) (snd (path_parent d))"
proof -
  let ?w1 = "snd (path_mkdir w (path_parent d))"
  let ?w2 = "snd (shutil_copy2 (print ?w1 (MsgCopy (path_name s))) s d)"
  have "snd (copy_step w s d) = ?w1 \<or> snd (copy_step w s d) = ?w2"
    by (simp add: copy_step_eq split: sum.splits)
  then have "is_dir_at ?w1 q"
  proof
    assume "snd (copy_step w s d) = ?w1"
    with assms(1) show ?thesis by simp
  next
    assume "snd (copy_step w s d) = ?w2"
    with assms(1) have "is_dir_at (print ?w1 (MsgCopy (path_name s))) q"
      by (simp add: shutil_copy2_no_new_dirs)
    then show ?thesis by (simp add: is_dir_at_eq)
  qed
  from path_mkdir_new_dirs[OF this assms(2)] show ?thesis
    by (simp add: path_parent_def)
qed

text \<open>An evaluation that skips leaves the file system alone and calls no \<^verbatim>\<open>mkdir\<close>.\<close>

lemma guarded_skip_or_copy:
  obtains (skip) "fst (guarded w s d) = SkippedUnchanged" "volumes (snd (guarded w s d)) = volumes w"
      "\<forall>c \<in> set (calls_made w (snd (guarded w s d))). \<exists>p. c = Stat p"
    | (stop) e where "fst (guarded w s d) = Failed e" "volumes (snd (guarded w s d)) = volumes w"
      "\<forall>c \<in> set (calls_made w (snd (guarded w s d))). \<exists>p. c = Stat p"
    | (copy) w3 where "\<not> is_skip (fst (guarded w s d))" "volumes w3 = volumes w"
      "volumes (snd (guarded w s d)) = volumes (snd (copy_step w3 s d))"
      "\<forall>c \<in> set (calls_made w (snd (guarded w s d))).
          (\<exists>p. c = Stat p) \<or> c = Mkdir (path_parent d) \<or> c = Copy2 s d"
proof (cases w s d rule: try_body_cases)
  case c1
  let ?w3 = "log_call w (Stat d)"
  have o: "\<not> is_skip (fst (guarded w s d))"
    using copy_step_result[of ?w3 s d] by (auto simp: guarded_eq c1 split: sum.splits)
  have "calls_made w (snd (copy_step ?w3 s d)) = [Stat d] @ calls_made ?w3 (snd (copy_step ?w3 s d))"
    by (rule calls_made_trans[of ?w3]) (simp_all add: copy_step_trace calls_made_def)
  then have c: "\<forall>c \<in> set (calls_made w (snd (guarded w s d))).
                   (\<exists>p. c = Stat p) \<or> c = Mkdir (path_parent d) \<or> c = Copy2 s d"
    by (simp add: guarded_calls c1 copy_step_calls)
  show ?thesis
    by (rule copy[of ?w3]) (use o c in \<open>simp_all add: guarded_eq c1 split: sum.splits\<close>)
next
  case c3
  let ?w3 = "log_call (log_call (log_call w (Stat d)) (Stat s)) (Stat d)"
  have o: "\<not> is_skip (fst (guarded w s d))"
    using copy_step_result[of ?w3 s d] by (auto simp: guarded_eq c3 split: sum.splits)
  have "calls_made w (snd (copy_step ?w3 s d))
          = [Stat d, Stat s, Stat d] @ calls_made ?w3 (snd (copy_step ?w3 s d))"
    by (rule calls_made_trans[of ?w3]) (simp_all add: copy_step_trace calls_made_def)
  then have c: "\<forall>c \<in> set (calls_made w (snd (guarded w s d))).
                   (\<exists>p. c = Stat p) \<or> c = Mkdir (path_parent d) \<or> c = Copy2 s d"
    by (simp add: guarded_calls c3 copy_step_calls)
  show ?thesis
    by (rule copy[of ?w3]) (use o c in \<open>simp_all add: guarded_eq c3 split: sum.splits\<close>)
next
  case (n1 e)
  have "calls_made w (snd (guarded w s d)) = [Stat d]"
    by (simp add: guarded_calls n1)
  then show ?thesis
    by (intro stop[of e]) (simp_all add: guarded_eq n1)
next
  case (n2 e)
  have "calls_made w (snd (guarded w s d)) = [Stat d, Stat s]"
    by (simp add: guarded_calls n2)
  then show ?thesis
    by (intro stop[of e]) (simp_all add: guarded_eq n2)
next
  case n3
  have "calls_made w (snd (guarded w s d)) = [Stat d, Stat s, Stat d]"
    by (simp add: guarded_calls n3)
  then show ?thesis
    by (intro skip) (simp_all add: guarded_eq n3)
qed

lemma process_file_effects:
  obtains (skip) "is_skip (ev_outcome (fst (process_file w s d)))"
      "volumes (snd (process_file w s d)) = volumes w"
      "\<forall>c \<in> set (calls_made w (snd (process_file w s d))). \<exists>p. c = Stat p"
    | (stop) "\<not> is_skip (ev_outcome (fst (process_file w s d)))"
      "volumes (snd (process_file w s d)) = volumes w"
      "\<forall>c \<in> set (calls_made w (snd (process_file w s d))). \<exists>p. c = Stat p"
    | (copy) w3 where "\<not> is_skip (ev_outcome (fst (process_file w s d)))"
      "volumes w3 = volumes w"
      "volumes (snd (process_file w s d)) = volumes (snd (copy_step w3 s d))"
      "\<forall>c \<in> set (calls_made w (snd (process_file w s d))).
          (\<exists>p. c = Stat p) \<or> c = Mkdir (path_parent d) \<or> c = Copy2 s d"
proof (cases "ev_outcome (fst (process_file w s d)) = SkippedDuplicate")
  case True
  then have "snd (process_file w s d) = log_call w (Stat s)"
    by (rule process_file_duplicate_world)
  with True show ?thesis by (intro skip) simp_all
next
  case False
  from process_file_calls[OF False] obtain entry where
    v: "volumes entry = volumes w"
    and o: "ev_outcome (fst (process_file w s d)) = fst (guarded entry s d)"
    and w': "snd (process_file w s d) = snd (guarded entry s d)"
    and c: "calls_made w (snd (process_file w s d))
              = Stat s # calls_made entry (snd (try_body entry s d))"
    by blast
  have c': "set (calls_made w (snd (process_file w s d)))
              = insert (Stat s) (set (calls_made entry (snd (guarded entry s d))))"
    by (simp add: c guarded_calls)
  show ?thesis
  proof (cases entry s d rule: guarded_skip_or_copy)
    case skip
    have "\<forall>c \<in> set (calls_made w (snd (process_file w s d))). \<exists>p. c = Stat p"
      unfolding c' using skip(3) by blast
    then show ?thesis
      using skip v by (intro that(1)) (simp_all add: o w')
  next
    case (stop e)
    have "\<forall>c \<in> set (calls_made w (snd (process_file w s d))). \<exists>p. c = Stat p"
      unfolding c' using stop(3) by blast
    then show ?thesis
      using stop v by (intro that(2)) (simp_all add: o w')
  next
    case (copy w3)
    have "\<forall>c \<in> set (calls_made w (snd (process_file w s d))).
            (\<exists>p. c = Stat p) \<or> c = Mkdir (path_parent d) \<or> c = Copy2 s d"
      unfolding c' using copy(4) by blast
    then show ?thesis
      using copy v by (intro that(3)[of w3]) (simp_all add: o w')
  qed
qed

lemma guarded_trace: "\<exists>xs. trace (snd (guarded w s d)) = trace w @ xs"
  using try_body_trace[of w s d] by (auto simp: guarded_eq split: sum.splits)

lemma process_file_trace: "\<exists>xs. trace (snd (process_file w s d)) = trace w @ xs"
proof (cases "ev_outcome (fst (process_file w s d)) = SkippedDuplicate")
  case True
  then show ?thesis by (simp add: process_file_duplicate_world)
next
  case False
  from process_file_calls[OF False] obtain entry ys where
    "calls_made w (snd (process_file w s d)) = ys"
    and w': "snd (process_file w s d) = snd (guarded entry s d)"
    by blast
  let ?entry = "(log_call w (Stat s))
                  \<lparr>SEEN_FILES_FINGERPRINTS :=
                     SEEN_FILES_FINGERPRINTS w
                       \<union> set_option (ev_fingerprint (fst (process_file w s d)))\<rparr>"
  have "snd (process_file w s d) = snd (guarded ?entry s d)"
    using process_file_guarded[OF False] by (simp add: Let_def prod_eq_iff)
  moreover obtain xs where "trace (snd (guarded ?entry s d)) = trace ?entry @ xs"
    using guarded_trace by blast
  ultimately have "trace (snd (process_file w s d)) = trace w @ (Stat s # xs)"
    by simp
  then show ?thesis by blast
qed

lemma run_trace: "run w evs w' \<Longrightarrow> \<exists>xs. trace w' = trace w @ xs"
proof (induction rule: run.induct)
  case (run_eval w s d ev w')
  then have "w' = snd (process_file w s d)" by simp
  then show ?case using process_file_trace by simp
next
  case (run_seq w evs1 w1 evs2 w2)
  then show ?case by auto
qed simp_all

lemma calls_made_append:
  assumes "run w evs1 w1" and "run w1 evs2 w2"
  shows "calls_made w w2 = calls_made w w1 @ calls_made w1 w2"
proof -
  from run_trace[OF assms(1)] obtain xs where xs: "trace w1 = trace w @ xs" by blast
  from run_trace[OF assms(2)] obtain ys where ys: "trace w2 = trace w1 @ ys" by blast
  show ?thesis by (simp add: calls_made_def xs ys)
qed

lemma run_mkdir:
  "run w evs w' \<Longrightarrow> Mkdir p \<in> set (calls_made w w') \<Longrightarrow>
     \<exists>ev \<in> set evs. p = path_parent (ev_dst ev) \<and> \<not> is_skip (ev_outcome ev)"
proof (induction rule: run.induct)
  case (run_eval w s d ev w')
  then have ev: "ev = fst (process_file w s d)" and w': "w' = snd (process_file w s d)"
    by simp_all
  from run_eval.prems show ?case
    unfolding ev w' by (cases w s d rule: process_file_effects) auto
next
  case (run_seq w evs1 w1 evs2 w2)
  from run_seq.prems calls_made_append[OF run_seq.hyps]
  have "Mkdir p \<in> set (calls_made w w1) \<or> Mkdir p \<in> set (calls_made w1 w2)" by simp
  with run_seq.IH show ?case by auto
qed (simp_all add: calls_made_def)

lemma run_skips:
  "run w evs w' \<Longrightarrow> \<forall>ev \<in> set evs. is_skip (ev_outcome ev) \<Longrightarrow> volumes w' = volumes w"
proof (induction rule: run.induct)
  case (run_eval w s d ev w')
  then have ev: "ev = fst (process_file w s d)" and w': "w' = snd (process_file w s d)"
    by simp_all
  from run_eval.prems show ?case
    unfolding ev w' by (cases w s d rule: process_file_effects) auto
qed simp_all

lemma run_new_dirs:
  "run w evs w' \<Longrightarrow> is_dir_at w' q \<Longrightarrow> \<not> is_dir_at w q \<Longrightarrow>
     \<exists>ev \<in> set evs. \<not> is_skip (ev_outcome ev) \<and> fst q = fst (ev_dst ev)
                    \<and> prefix (snd q) (snd (path_parent (ev_dst ev)))"
proof (induction rule: run.induct)
  case (run_skip w)
  then show ?case by simp
next
  case (run_stat w p)
  then show ?case by (simp add: is_dir_at_eq)
next
  case (run_print w m)
  then show ?case by (simp add: is_dir_at_eq)
next
  case (run_eval w s d ev w')
  then have ev: "ev = fst (process_file w s d)" and w': "w' = snd (process_file w s d)"
    by simp_all
  show ?case
  proof (cases w s d rule: process_file_effects)
    case skip
    with run_eval.prems show ?thesis by (simp add: w' is_dir_at_eq)
  next
    case stop
    with run_eval.prems show ?thesis by (simp add: w' is_dir_at_eq)
  next
    case (copy w3)
    have "is_dir_at (snd (copy_step w3 s d)) q" "\<not> is_dir_at w3 q"
      using run_eval.prems copy(2,3) by (simp_all add: w' is_dir_at_eq)
    from copy_step_new_dirs[OF this] copy(1) show ?thesis by (simp add: ev)
  qed
next
  case (run_seq w evs1 w1 evs2 w2)
  show ?case
  proof (cases "is_dir_at w1 q")
    case True
    from run_seq.IH(1)[OF True run_seq.prems(2)] show ?thesis by auto
  next
    case False
    from run_seq.IH(2)[OF run_seq.prems(1) False] show ?thesis by auto
  qed
qed

lemma make_dirs_lookup:
  "make_dirs t p r path = Inr r' \<Longrightarrow> \<not> prefix q path \<Longrightarrow> lookup r' q = lookup r q"
proof (induction path arbitrary: r r' q)
  case Nil
  then show ?case by (cases r) auto
next
  case (Cons c cs)
  from Cons.prems(1) obtain s t' a es where r: "r = Dir s t' a es"
    by (cases r) auto
  let ?m0 = "case map_of es c of None \<Rightarrow> Dir 0 t FILE_ATTRIBUTE_DIRECTORY [] | Some m \<Rightarrow> m"
  from Cons.prems(1) r obtain m' where m': "make_dirs t p ?m0 cs = Inr m'"
    and r': "r' = Dir s t' a (AList.update c m' es)"
    by (auto split: sum.splits)
  from Cons.prems(2) obtain c' qs where q: "q = c' # qs" by (cases q) auto
  show ?case
  proof (cases "c' = c")
    case False
    then show ?thesis unfolding r r' q by (simp add: update_conv')
  next
    case True
    with Cons.prems(2) q have np: "\<not> prefix qs cs" by simp
    from Cons.IH[OF m' np] have "lookup m' qs = lookup ?m0 qs" .
    moreover have "lookup ?m0 qs = (case map_of es c of None \<Rightarrow> None | Some m \<Rightarrow> lookup m qs)"
      using np by (cases "map_of es c"; cases qs) simp_all
    ultimately show ?thesis unfolding r r' q True by (simp add: update_conv')
  qed
qed

lemma write_file_lookup:
  "write_file p r path (File s t a) = Inr r' \<Longrightarrow> \<not> prefix q path \<Longrightarrow> \<not> prefix path q
     \<Longrightarrow> lookup r' q = lookup r q"
proof (induction path arbitrary: r r' q)
  case Nil
  then show ?case by simp
next
  case (Cons c cs)
  from Cons.prems(1) obtain s0 t0 a0 es where r: "r = Dir s0 t0 a0 es"
    by (cases r) auto
  from Cons.prems(2) obtain c' qs where q: "q = c' # qs" by (cases q) auto
  show ?case
  proof (cases "map_of es c")
    case None
    with Cons.prems(1) r have cs: "cs = []"
      and r': "r' = Dir s0 t0 a0 (AList.update c (File s t a) es)"
      by (auto split: if_splits)
    from Cons.prems(3) q cs have "c' \<noteq> c" by auto
    then show ?thesis unfolding r r' q by (simp add: update_conv')
  next
    case (Some m)
    with Cons.prems(1) r obtain m' where m': "write_file p m cs (File s t a) = Inr m'"
      and r': "r' = Dir s0 t0 a0 (AList.update c m' es)"
      by (auto split: sum.splits)
    show ?thesis
    proof (cases "c' = c")
      case False
      then show ?thesis unfolding r r' q by (simp add: update_conv')
    next
      case True
      with Cons.prems(2,3) q have "\<not> prefix qs cs" "\<not> prefix cs qs" by simp_all
      from Cons.IH[OF m' this] show ?thesis
        unfolding r r' q True by (simp add: update_conv' Some)
    qed
  qed
qed

lemma path_mkdir_node_at:
  assumes "fst q \<noteq> fst p \<or> \<not> prefix (snd q) (snd p)"
  shows "node_at (snd (path_mkdir w p)) q = node_at w q"
proof (cases "fst (path_mkdir w p)")
  case (Inl e)
  then have "volumes (snd (path_mkdir w p)) = volumes w"
    by (auto simp: path_mkdir_def Let_def split: option.splits sum.splits)
  then show ?thesis by (rule node_at_frame)
next
  case (Inr u)
  then obtain r r' where r: "volumes w (fst p) = Some r"
    and m: "make_dirs (now w) p r (snd p) = Inr r'"
    and v: "volumes (snd (path_mkdir w p)) = (volumes w)(fst p := Some r')"
    by (auto simp: path_mkdir_def Let_def split: option.splits sum.splits)
  show ?thesis
  proof (cases "fst q = fst p")
    case False
    then show ?thesis by (simp add: node_at_def v)
  next
    case True
    with assms have "\<not> prefix (snd q) (snd p)" by simp
    from make_dirs_lookup[OF m this] show ?thesis by (simp add: node_at_def v r True)
  qed
qed

lemma shutil_copy2_node_at:
  assumes "apart q d"
  shows "node_at (snd (shutil_copy2 w s d)) q = node_at w q"
proof (cases "volumes (snd (shutil_copy2 w s d)) = volumes w")
  case True
  then show ?thesis by (rule node_at_frame)
next
  case False
  then obtain real_dst r r' sz t a where r: "volumes w (fst real_dst) = Some r"
    and wf: "write_file real_dst r (snd real_dst) (File sz t a) = Inr r'"
    and v: "volumes (snd (shutil_copy2 w s d)) = (volumes w)(fst real_dst := Some r')"
    and rd: "real_dst = d \<or> real_dst = path_join d (path_name s)"
    by (auto simp: shutil_copy2_def Let_def split: option.splits sum.splits node.splits if_splits)
  show ?thesis
  proof (cases "fst q = fst real_dst")
    case False
    then show ?thesis by (simp add: node_at_def v)
  next
    case True
    with rd have "fst q = fst d" by (auto simp: path_join_def)
    with assms have a: "\<not> prefix (snd q) (snd d)" "\<not> prefix (snd d) (snd q)"
      by (simp_all add: apart_def)
    have "\<not> prefix (snd q) (snd real_dst) \<and> \<not> prefix (snd real_dst) (snd q)"
      using rd a by (auto simp: path_join_def dest: append_prefixD)
    with write_file_lookup[OF wf] show ?thesis by (simp add: node_at_def v r True)
  qed
qed

lemma apart_parent:
  "apart q d \<Longrightarrow> fst q \<noteq> fst (path_parent d) \<or> \<not> prefix (snd q) (snd (path_parent d))"
  using prefix_order.trans[OF _ prefixeq_butlast, of "snd q" "snd d"]
  by (auto simp: apart_def path_parent_def)

lemma apart_below: "apart q d \<Longrightarrow> apart q (path_join_rel d rel)"
  unfolding apart_def path_join_rel_def
  by (auto dest: append_prefixD simp: prefix_append)

lemma copy_step_node_at:
  assumes "apart q d"
  shows "node_at (snd (copy_step w s d)) q = node_at w q"
proof -
  let ?w1 = "snd (path_mkdir w (path_parent d))"
  let ?w2 = "snd (shutil_copy2 (print ?w1 (MsgCopy (path_name s))) s d)"
  have m: "node_at ?w1 q = node_at w q"
    using apart_parent[OF assms] by (rule path_mkdir_node_at)
  have c: "node_at ?w2 q = node_at w q"
    using shutil_copy2_node_at[OF assms, of "print ?w1 (MsgCopy (path_name s))" s] m by simp
  have "snd (copy_step w s d) = ?w1 \<or> snd (copy_step w s d) = ?w2"
    by (simp add: copy_step_eq split: sum.splits)
  with m c show ?thesis by auto
qed

lemma process_file_node_at:
  assumes "apart q d"
  shows "node_at (snd (process_file w s d)) q = node_at w q"
proof (cases w s d rule: process_file_effects)
  case skip
  then show ?thesis by (intro node_at_frame)
next
  case stop
  then show ?thesis by (intro node_at_frame)
next
  case (copy w3)
  have "node_at (snd (process_file w s d)) q = node_at (snd (copy_step w3 s d)) q"
    using copy(3) by (rule node_at_frame)
  also have "\<dots> = node_at w3 q" using assms by (rule copy_step_node_at)
  also have "\<dots> = node_at w q" using copy(2) by (rule node_at_frame)
  finally show ?thesis .
qed

lemma run_node_at:
  "run w evs w' \<Longrightarrow> \<forall>ev \<in> set evs. apart q (ev_dst ev) \<Longrightarrow> node_at w' q = node_at w q"
proof (induction rule: run.induct)
  case (run_eval w s d ev w')
  then have w': "w' = snd (process_file w s d)" and ev: "ev = fst (process_file w s d)"
    by simp_all
  have "apart q d" using run_eval.prems ev by simp
  then show ?case unfolding w' by (rule process_file_node_at)
qed simp_all

section \<open>The walk of a folder that the copies leave alone\<close>

lemma process_files_each:
  "process_files w rp cd files
     = process_each w (map (\<lambda>f. (path_join rp f, path_join cd f)) files)"
  by (induction files arbitrary: w) (simp_all split: prod.splits)

lemma process_each_append:
  "process_each w (ps @ qs) =
     (fst (process_each w ps) @ fst (process_each (snd (process_each w ps)) qs),
      snd (process_each (snd (process_each w ps)) qs))"
proof (induction ps arbitrary: w)
  case Nil
  show ?case by simp
next
  case (Cons p ps)
  obtain s d where p: "p = (s, d)" by (cases p)
  show ?case by (simp add: p Cons.IH split: prod.splits)
qed

lemma process_each_Cons:
  "process_each w ((s, d) # ps) =
     (fst (process_file w s d) # fst (process_each (snd (process_file w s d)) ps),
      snd (process_each (snd (process_file w s d)) ps))"
  by (simp split: prod.splits)

lemma process_each_args: "map ev_args (fst (process_each w ps)) = ps"
proof (induction ps arbitrary: w)
  case Nil
  show ?case by simp
next
  case (Cons p ps)
  obtain s d where p: "p = (s, d)" by (cases p)
  have "ev_args (fst (process_file w s d)) = (s, d)" by (simp add: ev_args_def)
  then show ?case
    unfolding p process_each_Cons by (simp add: Cons.IH)
qed

lemma process_each_run: "run w (fst (process_each w ps)) (snd (process_each w ps))"
proof (induction ps arbitrary: w)
  case Nil
  show ?case by (simp add: run_skip)
next
  case (Cons p ps)
  obtain s d where p: "p = (s, d)" by (cases p)
  have "process_file w s d = (fst (process_file w s d), snd (process_file w s d))" by simp
  from run_cons[OF this Cons.IH] show ?case
    unfolding p process_each_Cons by simp
qed

lemma process_each_node_at:
  assumes "\<forall>pr \<in> set ps. apart q (snd pr)"
  shows "node_at (snd (process_each w ps)) q = node_at w q"
proof (rule run_node_at[OF process_each_run])
  show "\<forall>ev \<in> set (fst (process_each w ps)). apart q (ev_dst ev)"
  proof
    fix ev assume "ev \<in> set (fst (process_each w ps))"
    then have "ev_args ev \<in> set (map ev_args (fst (process_each w ps)))" by simp
    then have "ev_args ev \<in> set ps" by (simp only: process_each_args)
    with assms show "apart q (ev_dst ev)" by (auto simp: ev_args_def)
  qed
qed

lemma node_at_rel:
  "node_at w src = Some n \<Longrightarrow> node_at w (path_join_rel src rel) = lookup n rel"
  by (auto simp: node_at_def path_join_rel_def lookup_append split: option.splits)

lemma depth_entry:
  "e \<in> set es \<Longrightarrow> depth (snd e) \<le> foldr max (map (\<lambda>e. depth (snd e)) es) 0"
  by (induction es) auto

lemma mirrored_apart: "apart src dst \<Longrightarrow> apart src (snd (mirrored src dst rel))"
  by (simp add: mirrored_def apart_below)

lemma walk_dirs_apart:
  assumes ap: "apart src dst"
      and walk: "\<And>w rel m. node_at w src = Some n \<Longrightarrow> lookup n rel = Some m \<Longrightarrow>
                   distinct_names m \<Longrightarrow> depth m < k \<Longrightarrow>
                   walk_loop k w src dst (path_join_rel src rel)
                     = ((fst (process_each w (map (\<lambda>r. mirrored src dst (rel @ r)) (files_of m))),
                         Returned),
                        snd (process_each w (map (\<lambda>r. mirrored src dst (rel @ r)) (files_of m))))"
  shows "node_at w src = Some n \<Longrightarrow>
         \<forall>e \<in> set ds. lookup n (rel @ [fst e]) = Some (snd e) \<and> distinct_names (snd e)
                        \<and> depth (snd e) < k \<Longrightarrow>
         walk_dirs (\<lambda>w' p. walk_loop k w' src dst p) w (path_join_rel src rel) (map fst ds)
           = ((fst (process_each w
                      (concat (map (\<lambda>e. map (\<lambda>r. mirrored src dst ((rel @ [fst e]) @ r))
                                           (files_of (snd e))) ds))),
               Returned),
              snd (process_each w
                      (concat (map (\<lambda>e. map (\<lambda>r. mirrored src dst ((rel @ [fst e]) @ r))
                                           (files_of (snd e))) ds))))"
proof (induction ds arbitrary: w)
  case Nil
  show ?case by simp
next
  case (Cons e ds)
  let ?ps = "map (\<lambda>r. mirrored src dst ((rel @ [fst e]) @ r)) (files_of (snd e))"
  let ?qs = "concat (map (\<lambda>e. map (\<lambda>r. mirrored src dst ((rel @ [fst e]) @ r))
                                           (files_of (snd e))) ds)"
  let ?w1 = "snd (process_each w ?ps)"
  have j: "path_join (path_join_rel src rel) (fst e) = path_join_rel src (rel @ [fst e])"
    by (simp add: path_join_def path_join_rel_def)
  have e: "lookup n (rel @ [fst e]) = Some (snd e)" "distinct_names (snd e)" "depth (snd e) < k"
    using Cons.prems(2) by simp_all
  have v: "walk_loop k w src dst (path_join_rel src (rel @ [fst e]))
             = ((fst (process_each w ?ps), Returned), ?w1)"
    using Cons.prems(1) e by (rule walk)
  have "node_at ?w1 src = node_at w src"
    by (rule process_each_node_at) (auto simp: mirrored_apart[OF ap])
  then have n1: "node_at ?w1 src = Some n" using Cons.prems(1) by simp
  have ih: "walk_dirs (\<lambda>w' p. walk_loop k w' src dst p) ?w1 (path_join_rel src rel) (map fst ds)
              = ((fst (process_each ?w1 ?qs), Returned), snd (process_each ?w1 ?qs))"
    using n1 Cons.prems(2) by (intro Cons.IH) simp_all
  have "concat (map (\<lambda>e. map (\<lambda>r. mirrored src dst ((rel @ [fst e]) @ r))
                                           (files_of (snd e))) (e # ds)) = ?ps @ ?qs"
    by simp
  then show ?case
    by (simp only: list.map walk_dirs.simps j v ih process_each_append prod.case ending.case
                   fst_conv snd_conv)
qed

lemma walk_loop_apart:
  assumes ap: "apart src dst"
  shows "node_at w src = Some n \<Longrightarrow> lookup n rel = Some m \<Longrightarrow> distinct_names m \<Longrightarrow>
         depth m < fuel \<Longrightarrow>
         walk_loop fuel w src dst (path_join_rel src rel)
           = ((fst (process_each w (map (\<lambda>r. mirrored src dst (rel @ r)) (files_of m))),
               Returned),
              snd (process_each w (map (\<lambda>r. mirrored src dst (rel @ r)) (files_of m))))"
proof (induction fuel arbitrary: w rel m)
  case 0
  then show ?case by simp
next
  case (Suc k)
  let ?top = "path_join_rel src rel"
  have top: "node_at w ?top = Some m"
    using node_at_rel[OF Suc.prems(1), of rel] Suc.prems(2) by simp
  show ?case
  proof (cases m)
    case (File s t a)
    then show ?thesis using top by simp
  next
    case (Dir s t a es)
    let ?fe = "filter (\<lambda>e. \<not> is_Dir (snd e)) es"
    let ?de = "filter (\<lambda>e. is_Dir (snd e)) es"
    let ?A = "map (\<lambda>r. mirrored src dst (rel @ r)) (map (\<lambda>e. [fst e]) ?fe)"
    let ?B = "concat (map (\<lambda>e. map (\<lambda>r. mirrored src dst ((rel @ [fst e]) @ r))
                                      (files_of (snd e))) ?de)"
    let ?w1 = "snd (process_each w ?A)"
    have rel: "relative_to ?top src = rel"
      by (simp add: relative_to_def path_join_rel_def)
    have pf: "process_files w ?top (path_join_rel dst rel) (map fst ?fe) = process_each w ?A"
      unfolding process_files_each
      by (rule arg_cong[where f = "process_each w"])
         (simp add: mirrored_def path_join_def path_join_rel_def)
    have "node_at ?w1 src = node_at w src"
      by (rule process_each_node_at) (auto simp: mirrored_apart[OF ap])
    then have n1: "node_at ?w1 src = Some n" using Suc.prems(1) by simp
    have dn: "distinct (map fst es)" "list_all (\<lambda>e. distinct_names (snd e)) es"
      using Suc.prems(3) Dir by simp_all
    have ent: "lookup n (rel @ [fst e]) = Some (snd e) \<and> distinct_names (snd e) \<and> depth (snd e) < k"
      if "e \<in> set ?de" for e
    proof -
      from that have mem: "(fst e, snd e) \<in> set es" by simp
      have "map_of es (fst e) = Some (snd e)"
        using dn(1) mem by (rule map_of_is_SomeI)
      then have "lookup n (rel @ [fst e]) = Some (snd e)"
        using Suc.prems(2) Dir by (simp add: lookup_append)
      moreover have "distinct_names (snd e)"
        using dn(2) mem by (auto simp: list_all_iff)
      moreover have "depth (snd e) < k"
        using depth_entry[of e es] mem Suc.prems(4) Dir by simp
      ultimately show ?thesis by simp
    qed
    have wd: "walk_dirs (\<lambda>w' p. walk_loop k w' src dst p) ?w1 ?top (map fst ?de)
                = ((fst (process_each ?w1 ?B), Returned), snd (process_each ?w1 ?B))"
      using ap Suc.IH n1 ent by (intro walk_dirs_apart) blast+
    have split: "map (\<lambda>r. mirrored src dst (rel @ r)) (files_of m) = ?A @ ?B"
      by (simp add: Dir map_concat o_def)
    have step: "walk_loop (Suc k) w src dst ?top
                  = (case process_files w ?top (path_join_rel dst rel) (map fst ?fe) of
                       (evs1, w1) \<Rightarrow>
                         (case walk_dirs (\<lambda>w' p. walk_loop k w' src dst p) w1 ?top (map fst ?de) of
                            ((evs2, r), w2) \<Rightarrow> ((evs1 @ evs2, r), w2)))"
      by (simp add: top Dir rel Let_def del: process_files.simps)
    show ?thesis
      by (simp only: step pf case_prod_beta wd fst_conv snd_conv split process_each_append)
  qed
qed

lemma sync_folder_recursive_apart:
  assumes "fst (path_exists w src) = Inr True" and "node_at w src = Some n"
      and "distinct_names n" and "apart src dst" and "depth n < fuel"
  shows "sync_folder_recursive fuel w src dst
           = ((fst (process_each (log_call w (Stat src)) (map (mirrored src dst) (files_of n))),
               Returned),
              snd (process_each (log_call w (Stat src)) (map (mirrored src dst) (files_of n))))"
proof -
  have "node_at (log_call w (Stat src)) src = Some n" using assms(2) by simp
  from walk_loop_apart[OF assms(4) this, of "[]" n fuel] assms(1,3,5)
  show ?thesis by (simp add: sync_folder_recursive_eq)
qed

lemma walk_dirs_not_raised:
  assumes "\<And>w p. snd (fst (walk w p)) \<noteq> Raised e"
  shows "snd (fst (walk_dirs walk w top_dir dirs)) \<noteq> Raised e"
proof (induction dirs arbitrary: w)
  case Nil
  show ?case by simp
next
  case (Cons d dirs)
  obtain evs1 r1 w1 where v: "walk w (path_join top_dir d) = ((evs1, r1), w1)"
    by (metis prod.collapse)
  obtain evs2 r2 w2 where l: "walk_dirs walk w1 top_dir dirs = ((evs2, r2), w2)"
    by (metis prod.collapse)
  have "r1 \<noteq> Raised e" using assms[of w "path_join top_dir d"] v by simp
  moreover have "r2 \<noteq> Raised e" using Cons.IH[of w1] l by simp
  ultimately show ?case by (cases r1) (simp_all add: v l)
qed

lemma walk_loop_not_raised: "snd (fst (walk_loop fuel w src dst root_path)) \<noteq> Raised e"
proof (induction fuel arbitrary: w root_path)
  case 0
  show ?case by simp
next
  case (Suc fuel)
  have "snd (fst (walk_dirs (\<lambda>w' p. walk_loop fuel w' src dst p) w1 root_path dirs)) \<noteq> Raised e"
    for w1 dirs
    by (rule walk_dirs_not_raised) (rule Suc.IH)
  then have "walk_dirs (\<lambda>w' p. walk_loop fuel w' src dst p) w1 root_path dirs \<noteq> ((evs, Raised e), w2)"
    for w1 dirs evs w2
    by (metis fst_conv snd_conv)
  then show ?case
    by (auto simp: Let_def split: option.splits node.splits prod.splits)
qed

lemma sync_folder_recursive_exception:
  "snd (fst (sync_folder_recursive fuel w s d)) = Raised e \<Longrightarrow> fst (path_exists w s) = Inl e"
  using walk_loop_not_raised[of fuel "log_call w (Stat s)" s d s e]
  by (simp add: sync_folder_recursive_eq split: sum.splits if_splits)




lemma walk_dirs_all:
  assumes "\<And>w d. \<forall>ev \<in> set (fst (fst (walk w (path_join top_dir d)))). Q ev"
  shows "\<forall>ev \<in> set (fst (fst (walk_dirs walk w top_dir dirs))). Q ev"
proof (induction dirs arbitrary: w)
  case Nil
  show ?case by simp
next
  case (Cons d dirs)
  obtain evs1 r1 w1 where v: "walk w (path_join top_dir d) = ((evs1, r1), w1)"
    by (metis prod.collapse)
  obtain evs2 r2 w2 where l: "walk_dirs walk w1 top_dir dirs = ((evs2, r2), w2)"
    by (metis prod.collapse)
  have "\<forall>ev \<in> set evs1. Q ev" using assms[of w d] v by simp
  moreover have "\<forall>ev \<in> set evs2. Q ev" using Cons.IH[of w1] l by simp
  ultimately show ?case by (cases r1) (auto simp: v l)
qed

lemma walk_loop_mirrored:
  "\<forall>ev \<in> set (fst (fst (walk_loop fuel w src dst (path_join_rel src rel)))).
      \<exists>rel'. ev_args ev = mirrored src dst rel'"
proof (induction fuel arbitrary: w rel)
  case 0
  show ?case by simp
next
  case (Suc k)
  let ?top = "path_join_rel src rel"
  let ?Q = "\<lambda>ev. \<exists>rel'. ev_args ev = mirrored src dst rel'"
  show ?case
  proof (cases "\<exists>s t a es. node_at w ?top = Some (Dir s t a es)")
    case False
    then have "walk_loop (Suc k) w src dst ?top = (([], Returned), w)"
      by (auto split: option.splits node.splits)
    then show ?thesis by simp
  next
    case True
    then obtain s t a es where n: "node_at w ?top = Some (Dir s t a es)" by blast
    let ?files = "map fst (filter (\<lambda>e. \<not> is_Dir (snd e)) es)"
    let ?dirs = "map fst (filter (\<lambda>e. is_Dir (snd e)) es)"
    let ?pf = "process_files w ?top (path_join_rel dst rel) ?files"
    let ?wd = "walk_dirs (\<lambda>w' p. walk_loop k w' src dst p) (snd ?pf) ?top ?dirs"
    have rel: "relative_to ?top src = rel"
      by (simp add: relative_to_def path_join_rel_def)
    have step: "fst (fst (walk_loop (Suc k) w src dst ?top)) = fst ?pf @ fst (fst ?wd)"
      by (simp add: n rel Let_def case_prod_beta del: process_files.simps)
    have "?Q ev" if "ev \<in> set (fst ?pf)" for ev
    proof -
      from that have "ev_args ev \<in> set (map ev_args (fst ?pf))" by simp
      then obtain f where "ev_args ev = (path_join ?top f, path_join (path_join_rel dst rel) f)"
        unfolding process_files_ev_args by auto
      then have "ev_args ev = mirrored src dst (rel @ [f])"
        by (simp add: mirrored_def path_join_def path_join_rel_def)
      then show ?thesis ..
    qed
    moreover have "\<forall>ev \<in> set (fst (fst ?wd)). ?Q ev"
    proof (rule walk_dirs_all)
      fix w' d
      have "path_join ?top d = path_join_rel src (rel @ [d])"
        by (simp add: path_join_def path_join_rel_def)
      then show "\<forall>ev \<in> set (fst (fst (walk_loop k w' src dst (path_join ?top d)))). ?Q ev"
        using Suc.IH[of w' "rel @ [d]"] by simp
    qed
    ultimately show ?thesis unfolding step by auto
  qed
qed

lemma sync_folder_recursive_mirrored:
  "\<forall>ev \<in> set (fst (fst (sync_folder_recursive fuel w src dst))).
      \<exists>rel. ev_args ev = mirrored src dst rel"
  using walk_loop_mirrored[of fuel "log_call w (Stat src)" src dst "[]"]
  by (simp add: sync_folder_recursive_eq split: sum.splits)

text \<open>
  When the destination lies below the source the walk finds what it has copied: in
  \<open>nested_world\<close> the two files are copied into \<^verbatim>\<open>docs/sub/bk\<close>, the walk then reaches that
  folder and evaluates the two copies, which are duplicates. Three levels of descent do
  not get there, four do.
\<close>

lemma nested_walk:
  "map (\<lambda>ev. (ev_src ev, ev_dst ev, ev_outcome ev))
       (fst (fst (sync_folder_recursive 4 nested_world (''C:'', [''docs''])
                    (''C:'', [''docs'', ''sub'', ''bk'']))))
     = [((''C:'', [''docs'', ''a.txt'']),
         (''C:'', [''docs'', ''sub'', ''bk'', ''a.txt'']), Copied),
        ((''C:'', [''docs'', ''sub'', ''b.txt'']),
         (''C:'', [''docs'', ''sub'', ''bk'', ''sub'', ''b.txt'']), Copied),
        ((''C:'', [''docs'', ''sub'', ''bk'', ''a.txt'']),
         (''C:'', [''docs'', ''sub'', ''bk'', ''sub'', ''bk'', ''a.txt'']), SkippedDuplicate),
        ((''C:'', [''docs'', ''sub'', ''bk'', ''sub'', ''b.txt'']),
         (''C:'', [''docs'', ''sub'', ''bk'', ''sub'', ''bk'', ''sub'', ''b.txt'']),
         SkippedDuplicate)]"
  "snd (fst (sync_folder_recursive 4 nested_world (''C:'', [''docs''])
               (''C:'', [''docs'', ''sub'', ''bk''])))
     = Returned"
  "snd (fst (sync_folder_recursive 3 nested_world (''C:'', [''docs''])
               (''C:'', [''docs'', ''sub'', ''bk''])))
     = Unfinished"
  by (simp_all add: eval_defs nested_world_def)

section \<open>The filtered walker, entry by entry\<close>





section \<open>The claims\<close>

text \<open>
  C1, as stated, fails. In \<open>boundary_world\<close> the destination exists, the fingerprint is
  new and the sizes are equal; the source modification time is greater than the
  destination modification time plus 5 seconds (by \<open>1 / 4194304\<close> of a second), and yet
  \<open>process_file\<close> returns \<open>SkippedUnchanged\<close>: line 100 adds floats, and the sum is rounded
  up to the time stamp of the source.
\<close>

theorem skips_unchanged_counterexample:
  "stat_at boundary_world (''C:'', [''docs'', ''a.txt''])
     = Inr \<lparr>st_isdir = False, st_size = 100, st_mtime = 17592186082149 / 8192,
            st_file_attributes = 32\<rparr>
   \<and> stat_at boundary_world (''G:'', [''Arch'', ''a.txt''])
     = Inr \<lparr>st_isdir = False, st_size = 100, st_mtime = 9007199253088767 / 4194304,
            st_file_attributes = 32\<rparr>
   \<and> fst (get_file_fingerprint boundary_world (''C:'', [''docs'', ''a.txt'']))
     = Some (''a.txt'', 100, 2147483652)
   \<and> (''a.txt'', 100, 2147483652) \<notin> SEEN_FILES_FINGERPRINTS boundary_world
   \<and> (17592186082149 / 8192 :: rat) - (9007199253088767 / 4194304 + 5) = 1 / 4194304
   \<and> ev_outcome (fst (process_file boundary_world (''C:'', [''docs'', ''a.txt''])
                                            (''G:'', [''Arch'', ''a.txt''])))
       = SkippedUnchanged"
  by (simp add: eval_defs boundary_world_def float_add_boundary floor_boundary)

text \<open>
  C1, amended. Take a candidate whose source metadata can be read, whose destination
  exists (\<^verbatim>\<open>stat\<close> of it succeeds, which is what \<^verbatim>\<open>dst_file.exists()\<close> tests) and whose
  fingerprint is not yet in the registry. Then \<open>process_file\<close> returns \<open>SkippedUnchanged\<close>
  if and only if the sizes are equal and the source modification time is at most the
  float sum of the destination modification time and 5, that is the double nearest to
  the exact sum. In that case the file system and the output are as before and the only
  system calls made are four \<^verbatim>\<open>stat\<close> calls: no \<^verbatim>\<open>mkdir\<close>, no \<^verbatim>\<open>copy2\<close>. Otherwise the copy
  step is entered: the next system call is the \<^verbatim>\<open>mkdir\<close> of the parent of the destination,
  the exit is \<open>Copied\<close> or \<open>Failed\<close>, and \<open>Copied\<close> means that \<^verbatim>\<open>copy2\<close> was called on the two
  paths.
\<close>

theorem process_file_skips_unchanged_iff:
  assumes "stat_at w src_file = Inr src_stat"
      and "stat_at w dst_file = Inr dst_stat"
      and "(path_name src_file, st_size src_stat, py_int (st_mtime src_stat))
             \<notin> SEEN_FILES_FINGERPRINTS w"
  shows "(let unchanged = (st_size src_stat = st_size dst_stat
                            \<and> st_mtime src_stat \<le> float_add (st_mtime dst_stat) 5);
              out = ev_outcome (fst (process_file w src_file dst_file));
              w' = snd (process_file w src_file dst_file);
              stats = [Stat src_file, Stat dst_file, Stat src_file, Stat dst_file]
          in (out = SkippedUnchanged \<longleftrightarrow> unchanged)
           \<and> (unchanged \<longrightarrow>
                volumes w' = volumes w \<and> stdout w' = stdout w \<and> trace w' = trace w @ stats)
           \<and> (\<not> unchanged \<longrightarrow>
                (out = Copied \<or> (\<exists>e. out = Failed e))
              \<and> (\<exists>rest. trace w' = trace w @ stats @ Mkdir (path_parent dst_file) # rest)
              \<and> (out = Copied \<longrightarrow>
                    trace w' = trace w @ stats
                                 @ [Mkdir (path_parent dst_file), Copy2 src_file dst_file])))"
proof -
  let ?fp = "(path_name src_file, st_size src_stat, py_int (st_mtime src_stat))"
  let ?w0 = "(log_call w (Stat src_file))
               \<lparr>SEEN_FILES_FINGERPRINTS := insert ?fp (SEEN_FILES_FINGERPRINTS w)\<rparr>"
  let ?w3 = "log_call (log_call (log_call ?w0 (Stat dst_file)) (Stat src_file)) (Stat dst_file)"
  define un where
    "un \<longleftrightarrow> st_size src_stat = st_size dst_stat \<and> st_mtime src_stat \<le> float_add (st_mtime dst_stat) 5"
  have s: "stat_at ?w0 src_file = Inr src_stat"
    using assms(1) by simp
  have d: "stat_at ?w0 dst_file = Inr dst_stat"
    using assms(2) by simp
  have pf: "process_file w src_file dst_file =
              (case guarded ?w0 src_file dst_file of
                 (out, w2) \<Rightarrow> (evaluation src_file dst_file (Some ?fp) out, w2))"
    using process_file_new[OF assms(1) assms(3)] by (simp add: Let_def)
  have tb: "try_body ?w0 src_file dst_file =
              (if un then (Inr SkippedUnchanged, ?w3) else copy_step ?w3 src_file dst_file)"
    using try_body_existing[OF s d] by (simp add: Let_def un_def)
  have tr3: "trace ?w3 = trace w @ [Stat src_file, Stat dst_file, Stat src_file, Stat dst_file]"
    by simp
  show ?thesis
  proof (cases un)
    case True
    then have "process_file w src_file dst_file =
                 (evaluation src_file dst_file (Some ?fp) SkippedUnchanged, ?w3)"
      by (simp add: pf guarded_def tb handler_def)
    with True show ?thesis unfolding un_def by (simp add: Let_def evaluation_def)
  next
    case False
    obtain r w4 where cs: "copy_step ?w3 src_file dst_file = (r, w4)"
      by (cases "copy_step ?w3 src_file dst_file")
    have r: "r = Inr Copied \<or> (\<exists>e. r = Inl e)"
      using copy_step_result[of ?w3 src_file dst_file] cs by simp
    have t4: "trace w4 = trace ?w3 @ Mkdir (path_parent dst_file)
                 # (if fst (path_mkdir ?w3 (path_parent dst_file)) = Inr ()
                    then [Copy2 src_file dst_file] else [])"
      using copy_step_trace[of ?w3 src_file dst_file] cs by simp
    have ok: "r = Inr Copied \<Longrightarrow> fst (path_mkdir ?w3 (path_parent dst_file)) = Inr ()"
      using cs by (auto simp: copy_step_def split: prod.splits sum.splits)
    have pf': "process_file w src_file dst_file =
                 (case r of
                    Inl e \<Rightarrow> (evaluation src_file dst_file (Some ?fp) (Failed e),
                              print w4 (MsgError src_file e))
                  | Inr out \<Rightarrow> (evaluation src_file dst_file (Some ?fp) out, w4))"
      using False by (simp add: pf guarded_def tb handler_def cs split: sum.splits)
    from r show ?thesis
    proof
      assume c: "r = Inr Copied"
      then show ?thesis using False t4 ok[OF c] tr3 unfolding un_def by (simp add: pf' Let_def evaluation_def)
    next
      assume "\<exists>e. r = Inl e"
      then obtain e where "r = Inl e" ..
      then show ?thesis using False t4 tr3 unfolding un_def by (auto simp add: pf' Let_def evaluation_def)
    qed
  qed
qed

theorem process_file_skips_unchanged_iff_witness:
  "stat_at example_world (''C:'', [''docs'', ''a.txt''])
     = Inr \<lparr>st_isdir = False, st_size = 100, st_mtime = 1000, st_file_attributes = 32\<rparr>
   \<and> stat_at example_world (''G:'', [''Arch'', ''a.txt''])
     = Inr \<lparr>st_isdir = False, st_size = 100, st_mtime = 1000, st_file_attributes = 32\<rparr>
   \<and> (''a.txt'', 100, 1000) \<notin> SEEN_FILES_FINGERPRINTS example_world
   \<and> ev_outcome (fst (process_file example_world (''C:'', [''docs'', ''a.txt''])
                                           (''G:'', [''Arch'', ''a.txt''])))
       = SkippedUnchanged
   \<and> volumes (snd (process_file example_world (''C:'', [''docs'', ''a.txt''])
                                              (''G:'', [''Arch'', ''a.txt''])))
       = volumes example_world
   \<and> stat_at example_world (''C:'', [''docs'', ''b.txt''])
     = Inr \<lparr>st_isdir = False, st_size = 120, st_mtime = 1007, st_file_attributes = 32\<rparr>
   \<and> ev_outcome (fst (process_file example_world (''C:'', [''docs'', ''b.txt''])
                                           (''G:'', [''Arch'', ''b.txt''])))
       \<noteq> SkippedUnchanged"
proof -
  let ?a = "\<lparr>st_isdir = False, st_size = 100, st_mtime = 1000, st_file_attributes = 32\<rparr>"
  let ?b = "\<lparr>st_isdir = False, st_size = 120, st_mtime = 1007, st_file_attributes = 32\<rparr>"
  have sa: "stat_at example_world (''C:'', [''docs'', ''a.txt'']) = Inr ?a"
    by (simp add: stat_at_def node_at_def example_world_def)
  have da: "stat_at example_world (''G:'', [''Arch'', ''a.txt'']) = Inr ?a"
    by (simp add: stat_at_def node_at_def example_world_def)
  have sb: "stat_at example_world (''C:'', [''docs'', ''b.txt'']) = Inr ?b"
    by (simp add: stat_at_def node_at_def example_world_def)
  have db: "stat_at example_world (''G:'', [''Arch'', ''b.txt'']) = Inr ?a"
    by (simp add: stat_at_def node_at_def example_world_def)
  have na: "(path_name (''C:'', [''docs'', ''a.txt'']), st_size ?a, py_int (st_mtime ?a))
              \<notin> SEEN_FILES_FINGERPRINTS example_world"
    by (simp add: example_world_def)
  have nb: "(path_name (''C:'', [''docs'', ''b.txt'']), st_size ?b, py_int (st_mtime ?b))
              \<notin> SEEN_FILES_FINGERPRINTS example_world"
    by (simp add: example_world_def)
  show ?thesis
    using process_file_skips_unchanged_iff[OF sa da na]
          process_file_skips_unchanged_iff[OF sb db nb] sa da sb
    by (simp add: Let_def example_world_def float_add_1000)
qed

text \<open>
  C2. Take any run of the task loop, over any tasks and any world and followed to any
  depth, and any evaluation \<open>ev\<close> in it whose source yielded a fingerprint. Then \<open>ev\<close> took the exit
  \<open>SkippedDuplicate\<close> if and only if the fingerprint was in the registry when the run
  began or an earlier evaluation of the run, of whatever task, folder or destination,
  yielded the same fingerprint: of the files that share a fingerprint only the first
  one passes the duplicate check. And an evaluation that took this exit did nothing
  but the one \<^verbatim>\<open>stat\<close> of its source that the fingerprint needs: the world after it is
  the world before it with that call logged, so there was no \<^verbatim>\<open>stat\<close> of the destination,
  no comparison, no \<^verbatim>\<open>mkdir\<close> and no \<^verbatim>\<open>copy2\<close>.
\<close>

theorem later_duplicates_skipped:
  assumes "fst (fst (main_loop fuel w DEST_ROOT tasks)) = before @ ev # rest"
      and "ev_fingerprint ev = Some fp"
  shows "(ev_outcome ev = SkippedDuplicate \<longleftrightarrow>
            fp \<in> SEEN_FILES_FINGERPRINTS w \<or> (\<exists>e \<in> set before. ev_fingerprint e = Some fp))
       \<and> (ev_outcome ev = SkippedDuplicate \<longrightarrow>
            (\<exists>wa. run w before wa
                \<and> process_file wa (ev_src ev) (ev_dst ev) = (ev, log_call wa (Stat (ev_src ev)))
                \<and> run (log_call wa (Stat (ev_src ev))) rest (snd (main_loop fuel w DEST_ROOT tasks))))"
proof -
  let ?S = "SEEN_FILES_FINGERPRINTS w"
  let ?w' = "snd (main_loop fuel w DEST_ROOT tasks)"
  have "main_loop fuel w DEST_ROOT tasks = ((before @ ev # rest, snd (fst (main_loop fuel w DEST_ROOT tasks))), ?w')"
    using assms(1) by (simp add: prod_eq_iff)
  then have r: "run w (before @ ev # rest) ?w'" by (rule main_loop_run)
  from run_registry[OF r] have "dedup_consistent ?S (before @ ev # rest)" by simp
  then have "(ev_outcome ev = SkippedDuplicate) = (\<exists>fp \<in> seen_after ?S before. ev_fingerprint ev = Some fp)"
    by (simp add: dedup_consistent_append)
  then have iff: "ev_outcome ev = SkippedDuplicate \<longleftrightarrow>
                    fp \<in> ?S \<or> (\<exists>e \<in> set before. ev_fingerprint e = Some fp)"
    using assms(2) by (auto simp: seen_after_eq)
  from run_split[OF r refl] obtain wa wb where
    a: "run w before wa" and p: "process_file wa (ev_src ev) (ev_dst ev) = (ev, wb)"
    and b: "run wb rest ?w'" by blast
  have "wb = log_call wa (Stat (ev_src ev))" if "ev_outcome ev = SkippedDuplicate"
    using process_file_duplicate_world[of wa "ev_src ev" "ev_dst ev"] p that by simp
  with a p b iff show ?thesis by blast
qed

theorem later_duplicates_skipped_witness:
  "fst (fst (main_loop 3 twin_world (''G:'', [''Arch'']) [((''C:'', [''docs'']), ''Local'', False)]))
     = [evaluation (''C:'', [''docs'', ''a.txt'']) (''G:'', [''Arch'', ''Local'', ''a.txt''])
          (Some (''a.txt'', 100, 1000)) Copied]
       @ evaluation (''C:'', [''docs'', ''sub'', ''a.txt''])
           (''G:'', [''Arch'', ''Local'', ''sub'', ''a.txt''])
           (Some (''a.txt'', 100, 1000)) SkippedDuplicate
       # []
   \<and> (\<exists>wa. process_file wa (''C:'', [''docs'', ''sub'', ''a.txt''])
                (''G:'', [''Arch'', ''Local'', ''sub'', ''a.txt''])
             = (evaluation (''C:'', [''docs'', ''sub'', ''a.txt''])
                  (''G:'', [''Arch'', ''Local'', ''sub'', ''a.txt''])
                  (Some (''a.txt'', 100, 1000)) SkippedDuplicate,
                log_call wa (Stat (''C:'', [''docs'', ''sub'', ''a.txt'']))))"
proof -
  let ?first = "evaluation (''C:'', [''docs'', ''a.txt'']) (''G:'', [''Arch'', ''Local'', ''a.txt''])
          (Some (''a.txt'', 100, 1000)) Copied"
  let ?later = "evaluation (''C:'', [''docs'', ''sub'', ''a.txt''])
           (''G:'', [''Arch'', ''Local'', ''sub'', ''a.txt''])
           (Some (''a.txt'', 100, 1000)) SkippedDuplicate"
  have evs: "fst (fst (main_loop 3 twin_world (''G:'', [''Arch''])
                         [((''C:'', [''docs'']), ''Local'', False)]))
               = [?first] @ ?later # []"
    by (simp add: eval_defs twin_world_def floor_half)
  have fp: "ev_fingerprint ?later = Some (''a.txt'', 100, 1000)"
    by (simp add: evaluation_def)
  have out: "ev_outcome ?later = SkippedDuplicate"
    by (simp add: evaluation_def)
  from later_duplicates_skipped[OF evs fp] out evs show ?thesis
    by (auto simp: evaluation_def)
qed



text \<open>
  C4. Take a candidate that passes the duplicate check, so that the \<^verbatim>\<open>try\<close> statement of
  \<open>process_file\<close> is entered. If the existence check of the destination raises \<open>e\<close> (a
  \<^verbatim>\<open>stat\<close> error other than "not found"), or the destination exists and \<^verbatim>\<open>stat\<close> of the
  source raises \<open>e\<close>, or \<^verbatim>\<open>mkdir\<close> of the parent of the destination is called and raises
  \<open>e\<close>, or \<^verbatim>\<open>copy2\<close> is called and raises \<open>e\<close>, then the exit is \<open>Failed e\<close>; and whenever
  the exit is \<open>Failed e\<close> the last line printed names the source path and \<open>e\<close>. By its
  type \<open>process_file\<close> returns to its caller in every case. The loop over the files of
  a folder evaluates every file of its list, whatever the exits of the earlier ones,
  and the only exception that leaves \<open>sync_folder_recursive\<close>, however far its walk is
  followed, is one raised by its own existence check of the source folder.
\<close>

theorem failures_caught_and_reported:
  "(let ev = fst (process_file w src_file dst_file);
        w' = snd (process_file w src_file dst_file);
        calls = calls_made w w'
    in ev_outcome ev \<noteq> SkippedDuplicate \<longrightarrow>
         (\<forall>e. stat_at w dst_file = Inl e \<and> \<not> ignore_error e \<longrightarrow> ev_outcome ev = Failed e)
       \<and> (\<forall>e st. stat_at w dst_file = Inr st \<and> stat_at w src_file = Inl e
               \<longrightarrow> ev_outcome ev = Failed e)
       \<and> (\<forall>e. Mkdir (path_parent dst_file) \<in> set calls
               \<and> fst (path_mkdir w (path_parent dst_file)) = Inl e
               \<longrightarrow> ev_outcome ev = Failed e)
       \<and> (\<forall>e. Copy2 src_file dst_file \<in> set calls
               \<and> fst (shutil_copy2 (snd (path_mkdir w (path_parent dst_file))) src_file dst_file)
                   = Inl e
               \<longrightarrow> ev_outcome ev = Failed e)
       \<and> (\<forall>e. ev_outcome ev = Failed e
               \<longrightarrow> stdout w' \<noteq> [] \<and> last (stdout w') = MsgError src_file e))
   \<and> map ev_src (fst (process_files w0 root_path current_dst_dir files))
       = map (path_join root_path) files
   \<and> (\<forall>e. snd (fst (sync_folder_recursive fuel w0 src_folder dst_folder)) = Raised e
          \<longrightarrow> fst (path_exists w0 src_folder) = Inl e)"
proof -
  let ?ev = "fst (process_file w src_file dst_file)"
  let ?w' = "snd (process_file w src_file dst_file)"
  have main: "(\<forall>e. stat_at w dst_file = Inl e \<and> \<not> ignore_error e \<longrightarrow> ev_outcome ?ev = Failed e)
       \<and> (\<forall>e st. stat_at w dst_file = Inr st \<and> stat_at w src_file = Inl e
               \<longrightarrow> ev_outcome ?ev = Failed e)
       \<and> (\<forall>e. Mkdir (path_parent dst_file) \<in> set (calls_made w ?w')
               \<and> fst (path_mkdir w (path_parent dst_file)) = Inl e
               \<longrightarrow> ev_outcome ?ev = Failed e)
       \<and> (\<forall>e. Copy2 src_file dst_file \<in> set (calls_made w ?w')
               \<and> fst (shutil_copy2 (snd (path_mkdir w (path_parent dst_file))) src_file dst_file)
                   = Inl e
               \<longrightarrow> ev_outcome ?ev = Failed e)
       \<and> (\<forall>e. ev_outcome ?ev = Failed e
               \<longrightarrow> stdout ?w' \<noteq> [] \<and> last (stdout ?w') = MsgError src_file e)"
    if nd: "ev_outcome ?ev \<noteq> SkippedDuplicate"
  proof -
    from process_file_calls[OF nd] obtain entry where
      v: "volumes entry = volumes w" and f: "faults entry = faults w" and n: "now entry = now w"
      and o: "ev_outcome ?ev = fst (guarded entry src_file dst_file)"
      and w': "?w' = snd (guarded entry src_file dst_file)"
      and c: "calls_made w ?w' = Stat src_file # calls_made entry (snd (try_body entry src_file dst_file))"
      by blast
    have st: "stat_at entry p = stat_at w p" for p
      using v f by (rule stat_at_frame)
    have raised: "ev_outcome ?ev = Failed e" if "fst (try_body entry src_file dst_file) = Inl e" for e
      using guarded_raised[OF that] o by simp
    have a: "ev_outcome ?ev = Failed e" if "stat_at w dst_file = Inl e" "\<not> ignore_error e" for e
      by (rule raised) (simp add: try_body_eq st that)
    have b: "ev_outcome ?ev = Failed e"
      if "stat_at w dst_file = Inr ds" "stat_at w src_file = Inl e" for e ds
      by (rule raised) (simp add: try_body_eq st that)
    have step: "\<exists>w3. volumes w3 = volumes w \<and> faults w3 = faults w \<and> now w3 = now w
                  \<and> try_body entry src_file dst_file = copy_step w3 src_file dst_file
                  \<and> x \<in> set (calls_made w3 (snd (copy_step w3 src_file dst_file)))"
      if "x \<in> set (calls_made w ?w')" "\<And>p. x \<noteq> Stat p" for x
    proof -
      from that c have "x \<in> set (calls_made entry (snd (try_body entry src_file dst_file)))"
        by auto
      from try_body_copy_step[OF this that(2)] v f n show ?thesis by auto
    qed
    have m: "ev_outcome ?ev = Failed e"
      if "Mkdir (path_parent dst_file) \<in> set (calls_made w ?w')"
         "fst (path_mkdir w (path_parent dst_file)) = Inl e" for e
    proof -
      from step[OF that(1)] obtain w3 where
        w3: "volumes w3 = volumes w" "faults w3 = faults w" "now w3 = now w"
        and t: "try_body entry src_file dst_file = copy_step w3 src_file dst_file"
        by auto
      show ?thesis
        by (rule raised) (simp add: t copy_step_raises(1)[OF w3 that(2)])
    qed
    have cp: "ev_outcome ?ev = Failed e"
      if "Copy2 src_file dst_file \<in> set (calls_made w ?w')"
         "fst (shutil_copy2 (snd (path_mkdir w (path_parent dst_file))) src_file dst_file) = Inl e"
      for e
    proof -
      from step[OF that(1)] obtain w3 where
        w3: "volumes w3 = volumes w" "faults w3 = faults w" "now w3 = now w"
        and t: "try_body entry src_file dst_file = copy_step w3 src_file dst_file"
        and x: "Copy2 src_file dst_file \<in> set (calls_made w3 (snd (copy_step w3 src_file dst_file)))"
        by auto
      from x have "fst (path_mkdir w3 (path_parent dst_file)) = Inr ()"
        by (simp add: copy_step_calls split: if_splits)
      then have ok: "fst (path_mkdir w (path_parent dst_file)) = Inr ()"
        using path_mkdir_frame(1)[OF w3] by simp
      show ?thesis
        by (rule raised) (simp add: t copy_step_raises(2)[OF w3 ok that(2)])
    qed
    have r: "stdout ?w' \<noteq> [] \<and> last (stdout ?w') = MsgError src_file e"
      if "ev_outcome ?ev = Failed e" for e
      using guarded_failed[of entry src_file dst_file e] that o w' by simp
    from a b m cp r show ?thesis by blast
  qed
  show ?thesis
    unfolding Let_def
    using main process_files_args[of w0 root_path current_dst_dir files]
          sync_folder_recursive_exception[of fuel w0 src_folder dst_folder]
    by blast
qed

theorem failures_caught_and_reported_witness:
  "ev_outcome (fst (process_file faulty_world (''C:'', [''docs'', ''a.txt''])
                      (''G:'', [''Arch'', ''a.txt''])))
     \<noteq> SkippedDuplicate
   \<and> Copy2 (''C:'', [''docs'', ''a.txt'']) (''G:'', [''Arch'', ''a.txt''])
       \<in> set (calls_made faulty_world
                 (snd (process_file faulty_world (''C:'', [''docs'', ''a.txt''])
                         (''G:'', [''Arch'', ''a.txt'']))))
   \<and> fst (shutil_copy2 (snd (path_mkdir faulty_world (path_parent (''G:'', [''Arch'', ''a.txt''])))) 
            (''C:'', [''docs'', ''a.txt'']) (''G:'', [''Arch'', ''a.txt'']))
       = Inl (OSError ''disk full'')
   \<and> ev_outcome (fst (process_file faulty_world (''C:'', [''docs'', ''a.txt''])
                        (''G:'', [''Arch'', ''a.txt''])))
       = Failed (OSError ''disk full'')
   \<and> last (stdout (snd (process_file faulty_world (''C:'', [''docs'', ''a.txt''])
                          (''G:'', [''Arch'', ''a.txt'']))))
       = MsgError (''C:'', [''docs'', ''a.txt'']) (OSError ''disk full'')
   \<and> map ev_outcome (fst (process_files faulty_world (''C:'', [''docs'']) (''G:'', [''Arch''])
                              [''a.txt'', ''b.txt'']))
       = [Failed (OSError ''disk full''), Copied]"
proof -
  let ?s = "(''C:'', [''docs'', ''a.txt''])"
  let ?d = "(''G:'', [''Arch'', ''a.txt''])"
  have nd: "ev_outcome (fst (process_file faulty_world ?s ?d)) \<noteq> SkippedDuplicate"
    by (simp add: eval_defs faulty_world_def)
  have c: "Copy2 ?s ?d \<in> set (calls_made faulty_world (snd (process_file faulty_world ?s ?d)))"
    by (simp add: eval_defs calls_made_def faulty_world_def)
  have r: "fst (shutil_copy2 (snd (path_mkdir faulty_world (path_parent ?d))) ?s ?d)
             = Inl (OSError ''disk full'')"
    by (simp add: eval_defs faulty_world_def)
  have l: "map ev_outcome (fst (process_files faulty_world (''C:'', [''docs'']) (''G:'', [''Arch''])
                              [''a.txt'', ''b.txt'']))
             = [Failed (OSError ''disk full''), Copied]"
    by (simp add: eval_defs faulty_world_def)
  from failures_caught_and_reported[of faulty_world ?s ?d] nd c r l show ?thesis
    by (simp add: Let_def)
qed

text \<open>
  C5. Take a candidate whose fingerprint cannot be computed (\<^verbatim>\<open>stat\<close> of the source
  raises, \<open>get_file_fingerprint\<close> returns \<^verbatim>\<open>None\<close>). Then the registry after the call is
  the registry before it, the exit is not \<open>SkippedDuplicate\<close>, and the \<^verbatim>\<open>try\<close> statement
  runs as for any other file: the call after the \<^verbatim>\<open>stat\<close> of the source is the existence
  check of the destination, and when the destination is not there the next call is the
  \<^verbatim>\<open>mkdir\<close> of its parent, followed by \<^verbatim>\<open>copy2\<close> when that succeeds.
\<close>

theorem fingerprint_failure_bypasses_registry:
  assumes "fst (get_file_fingerprint w src_file) = None"
  shows "(let ev = fst (process_file w src_file dst_file);
              w' = snd (process_file w src_file dst_file);
              calls = calls_made w w'
          in ev_fingerprint ev = None
           \<and> SEEN_FILES_FINGERPRINTS w' = SEEN_FILES_FINGERPRINTS w
           \<and> ev_outcome ev \<noteq> SkippedDuplicate
           \<and> (ev_outcome ev, w') = guarded (log_call w (Stat src_file)) src_file dst_file
           \<and> take 2 calls = [Stat src_file, Stat dst_file]
           \<and> (\<forall>e. stat_at w dst_file = Inl e \<and> ignore_error e \<longrightarrow>
                 take 3 calls = [Stat src_file, Stat dst_file, Mkdir (path_parent dst_file)]
               \<and> (fst (path_mkdir w (path_parent dst_file)) = Inr () \<longrightarrow>
                    calls = [Stat src_file, Stat dst_file, Mkdir (path_parent dst_file),
                             Copy2 src_file dst_file])))"
proof -
  let ?w1 = "log_call w (Stat src_file)"
  let ?g = "guarded ?w1 src_file dst_file"
  from assms obtain e0 where s: "stat_at w src_file = Inl e0"
    by (auto simp: get_file_fingerprint_eq split: sum.splits)
  have pf: "process_file w src_file dst_file = (evaluation src_file dst_file None (fst ?g), snd ?g)"
    using s by (simp add: process_file_eq)
  have nd: "fst ?g \<noteq> SkippedDuplicate"
    using guarded_result[of ?w1 src_file dst_file] by auto
  obtain xs where xs: "calls_made ?w1 (snd (try_body ?w1 src_file dst_file)) = Stat dst_file # xs"
    using try_body_first_call by blast
  obtain ys where ys: "trace (snd (try_body ?w1 src_file dst_file)) = trace ?w1 @ ys"
    using try_body_trace by blast
  have ysxs: "ys = Stat dst_file # xs"
    using xs ys by (simp add: calls_made_def)
  have "trace (snd ?g) = trace ?w1 @ ys"
    using ys by (simp add: guarded_eq split: sum.splits)
  then have calls: "calls_made w (snd ?g) = Stat src_file # Stat dst_file # xs"
    using ysxs by (simp add: calls_made_def)
  have absent: "xs = Mkdir (path_parent dst_file)
                  # (if fst (path_mkdir w (path_parent dst_file)) = Inr ()
                     then [Copy2 src_file dst_file] else [])"
    if "stat_at w dst_file = Inl e" "ignore_error e" for e
  proof -
    let ?w2 = "log_call ?w1 (Stat dst_file)"
    have t: "try_body ?w1 src_file dst_file = copy_step ?w2 src_file dst_file"
      using that by (intro try_body_absent) simp_all
    have m: "fst (path_mkdir ?w2 (path_parent dst_file)) = fst (path_mkdir w (path_parent dst_file))"
      by (rule path_mkdir_frame) simp_all
    have "calls_made ?w1 (snd (copy_step ?w2 src_file dst_file))
            = [Stat dst_file] @ calls_made ?w2 (snd (copy_step ?w2 src_file dst_file))"
      by (rule calls_made_trans[of ?w2]) (simp_all add: copy_step_trace calls_made_def)
    with xs t m show ?thesis by (simp add: copy_step_calls)
  qed
  show ?thesis
    unfolding Let_def pf
    using nd calls absent
    by (auto simp: evaluation_def guarded_fields)
qed

theorem fingerprint_failure_bypasses_registry_witness:
  "fst (get_file_fingerprint unreadable_world (''C:'', [''docs'', ''a.txt''])) = None
   \<and> stat_at unreadable_world (''G:'', [''Arch'', ''a.txt''])
       = Inl (FileNotFoundError (''G:'', [''Arch'', ''a.txt'']))
   \<and> fst (path_mkdir unreadable_world (path_parent (''G:'', [''Arch'', ''a.txt'']))) = Inr ()
   \<and> SEEN_FILES_FINGERPRINTS
         (snd (process_file unreadable_world (''C:'', [''docs'', ''a.txt''])
                 (''G:'', [''Arch'', ''a.txt''])))
       = SEEN_FILES_FINGERPRINTS unreadable_world
   \<and> calls_made unreadable_world
         (snd (process_file unreadable_world (''C:'', [''docs'', ''a.txt''])
                 (''G:'', [''Arch'', ''a.txt''])))
       = [Stat (''C:'', [''docs'', ''a.txt'']), Stat (''G:'', [''Arch'', ''a.txt'']),
          Mkdir (''G:'', [''Arch'']),
          Copy2 (''C:'', [''docs'', ''a.txt'']) (''G:'', [''Arch'', ''a.txt''])]
   \<and> ev_outcome (fst (process_file unreadable_world (''C:'', [''docs'', ''a.txt''])
                        (''G:'', [''Arch'', ''a.txt''])))
       = Copied"
proof -
  let ?s = "(''C:'', [''docs'', ''a.txt''])"
  let ?d = "(''G:'', [''Arch'', ''a.txt''])"
  have f: "fst (get_file_fingerprint unreadable_world ?s) = None"
    by (simp add: eval_defs unreadable_world_def)
  have a: "stat_at unreadable_world ?d = Inl (FileNotFoundError ?d)"
    by (simp add: eval_defs unreadable_world_def)
  have m: "fst (path_mkdir unreadable_world (path_parent ?d)) = Inr ()"
    by (simp add: eval_defs unreadable_world_def)
  have c: "ev_outcome (fst (process_file unreadable_world ?s ?d)) = Copied"
    by (simp add: eval_defs unreadable_world_def)
  from fingerprint_failure_bypasses_registry[OF f, of ?d] a m f c show ?thesis
    by (simp add: Let_def path_parent_def)
qed

text \<open>
  C6. When the source root does not exist (\<^verbatim>\<open>exists()\<close> answers \<^verbatim>\<open>False\<close>), each of the two
  walkers returns at once (it needs no level of descent): it makes no evaluation, no
  exception leaves it, and the world
  after it is the world before it with the one \<^verbatim>\<open>stat\<close> of the existence check logged;
  so the file system is as before (no directory is created) and nothing is printed.
\<close>

theorem missing_source_root_is_noop:
  assumes "fst (path_exists w src_root) = Inr False"
  shows "sync_folder_recursive fuel w src_root dst_root
           = (([], Returned), w\<lparr>trace := trace w @ [Stat src_root]\<rparr>)
       \<and> sync_documents_special fuel w src_root dst_root
           = (([], Returned), w\<lparr>trace := trace w @ [Stat src_root]\<rparr>)"
proof -
  have e: "path_exists w src_root = (Inr False, log_call w (Stat src_root))"
    using assms path_exists_eq[of w src_root] by (simp add: prod_eq_iff)
  show ?thesis
    by (simp add: sync_folder_recursive_def sync_documents_special_def e log_call_def)
qed

theorem missing_source_root_is_noop_witness:
  "fst (path_exists example_world (''C:'', [''nowhere''])) = Inr False
   \<and> sync_folder_recursive 0 example_world (''C:'', [''nowhere'']) (''G:'', [''Arch'', ''One''])
       = (([], Returned), example_world\<lparr>trace := [Stat (''C:'', [''nowhere''])]\<rparr>)
   \<and> sync_documents_special 0 example_world (''C:'', [''nowhere'']) (''G:'', [''Arch'', ''One''])
       = (([], Returned), example_world\<lparr>trace := [Stat (''C:'', [''nowhere''])]\<rparr>)"
proof -
  have a: "fst (path_exists example_world (''C:'', [''nowhere''])) = Inr False"
    by (simp add: eval_defs example_world_def)
  have t: "trace example_world = []"
    by (simp add: example_world_def)
  from missing_source_root_is_noop[OF a, of 0 "(''G:'', [''Arch'', ''One''])"] a t
  show ?thesis by simp
qed

text \<open>
  C7. Let the source folder exist and hold the tree \<open>n\<close>, in which no directory lists a
  name twice, let the destination folder lie apart from it (on another drive, or with
  neither path leading into the other, so that the copies do not land in what is walked)
  and let the walk be allowed more levels than \<open>n\<close> has. Then \<open>sync_folder_recursive\<close>
  returns, and what it does is to hand to \<open>process_file\<close>, one after the other and each
  once, the pairs \<open>src_folder / rel\<close>, \<open>dst_folder / rel\<close> for the relative paths \<open>rel\<close> in
  \<open>files_of n\<close>, and nothing else; \<open>files_of n\<close> holds every path of a file below the root
  of \<open>n\<close> and holds none twice. So every file under the source folder is evaluated exactly
  once, with its relative path kept at the destination. Wherever the destination folder
  lies and however far the walk is followed, every evaluation of the walker is of such a
  pair: of a path below the source folder and the same relative path below the
  destination folder.
\<close>

theorem recursive_walker_mirrors_tree:
  assumes "fst (path_exists w src_folder) = Inr True"
      and "node_at w src_folder = Some n"
      and "distinct_names n"
      and "apart src_folder dst_folder"
      and "depth n < fuel"
  shows "(let pairs = map (mirrored src_folder dst_folder) (files_of n);
              res = process_each (log_call w (Stat src_folder)) pairs
          in sync_folder_recursive fuel w src_folder dst_folder = ((fst res, Returned), snd res)
           \<and> map ev_args (fst (fst (sync_folder_recursive fuel w src_folder dst_folder))) = pairs)
       \<and> distinct (files_of n)
       \<and> set (files_of n) = {rel. rel \<noteq> [] \<and> (\<exists>s t a. lookup n rel = Some (File s t a))}
       \<and> (\<forall>ev \<in> set (fst (fst (sync_folder_recursive k v src_folder d))).
             \<exists>rel. ev_args ev = mirrored src_folder d rel)"
proof -
  let ?pairs = "map (mirrored src_folder dst_folder) (files_of n)"
  let ?res = "process_each (log_call w (Stat src_folder)) ?pairs"
  have a: "sync_folder_recursive fuel w src_folder dst_folder = ((fst ?res, Returned), snd ?res)"
    using assms by (rule sync_folder_recursive_apart)
  have a': "map ev_args (fst (fst (sync_folder_recursive fuel w src_folder dst_folder))) = ?pairs"
    unfolding a by (simp add: process_each_args)
  have b: "set (files_of n) = {rel. rel \<noteq> [] \<and> (\<exists>s t a. lookup n rel = Some (File s t a))}"
    using files_of_lookup[OF assms(3)] by blast
  show ?thesis
    unfolding Let_def
    using a a' b files_of_distinct[OF assms(3)] sync_folder_recursive_mirrored[of k v src_folder d]
    by blast
qed

theorem recursive_walker_mirrors_tree_witness:
  "fst (path_exists twin_world (''C:'', [''docs''])) = Inr True
   \<and> node_at twin_world (''C:'', [''docs''])
       = Some (Dir 0 900 16
                 [(''a.txt'', File 100 1000 32),
                  (''sub'', Dir 0 900 16 [(''a.txt'', File 100 (2001 / 2) 32)])])
   \<and> distinct_names
         (Dir 0 900 16
            [(''a.txt'', File 100 1000 32),
             (''sub'', Dir 0 900 16 [(''a.txt'', File 100 (2001 / 2) 32)])])
   \<and> apart (''C:'', [''docs'']) (''G:'', [''Arch'', ''Local''])
   \<and> depth
         (Dir 0 900 16
            [(''a.txt'', File 100 1000 32),
             (''sub'', Dir 0 900 16 [(''a.txt'', File 100 (2001 / 2) 32)])]) < 3
   \<and> snd (fst (sync_folder_recursive 3 twin_world (''C:'', [''docs''])
                   (''G:'', [''Arch'', ''Local''])))
       = Returned
   \<and> map ev_args (fst (fst (sync_folder_recursive 3 twin_world (''C:'', [''docs''])
                               (''G:'', [''Arch'', ''Local'']))))
       = [((''C:'', [''docs'', ''a.txt'']), (''G:'', [''Arch'', ''Local'', ''a.txt''])),
          ((''C:'', [''docs'', ''sub'', ''a.txt'']),
           (''G:'', [''Arch'', ''Local'', ''sub'', ''a.txt'']))]
   \<and> map ev_outcome (fst (fst (sync_folder_recursive 3 twin_world (''C:'', [''docs''])
                                  (''G:'', [''Arch'', ''Local'']))))
       = [Copied, SkippedDuplicate]"
proof -
  let ?n = "Dir 0 900 16
              [(''a.txt'', File 100 1000 32),
               (''sub'', Dir 0 900 16 [(''a.txt'', File 100 (2001 / 2) 32)])]"
  let ?src = "(''C:'', [''docs''])"
  let ?dst = "(''G:'', [''Arch'', ''Local''])"
  have e: "fst (path_exists twin_world ?src) = Inr True"
    by (simp add: eval_defs twin_world_def)
  have n: "node_at twin_world ?src = Some ?n"
    by (simp add: eval_defs twin_world_def)
  have d: "distinct_names ?n"
    by simp
  have g: "apart ?src ?dst" by (simp add: apart_def)
  have k: "depth ?n < 3" by simp
  have o: "map ev_outcome
             (fst (process_each (log_call twin_world (Stat ?src)) (map (mirrored ?src ?dst) (files_of ?n))))
             = [Copied, SkippedDuplicate]"
    by (simp add: mirrored_def eval_defs twin_world_def floor_half)
  have p: "map (mirrored ?src ?dst) (files_of ?n)
             = [((''C:'', [''docs'', ''a.txt'']), (''G:'', [''Arch'', ''Local'', ''a.txt''])),
                ((''C:'', [''docs'', ''sub'', ''a.txt'']),
                 (''G:'', [''Arch'', ''Local'', ''sub'', ''a.txt'']))]"
    by (simp add: mirrored_def path_join_rel_def)
  note th = recursive_walker_mirrors_tree[OF e n d g k, unfolded Let_def]
  note eq = th[THEN conjunct1, THEN conjunct1]
  have r: "snd (fst (sync_folder_recursive 3 twin_world ?src ?dst)) = Returned"
    by (simp only: eq fst_conv snd_conv)
  have a: "map ev_args (fst (fst (sync_folder_recursive 3 twin_world ?src ?dst)))
             = map (mirrored ?src ?dst) (files_of ?n)"
    by (rule th[THEN conjunct1, THEN conjunct2])
  have o': "map ev_outcome (fst (fst (sync_folder_recursive 3 twin_world ?src ?dst)))
              = [Copied, SkippedDuplicate]"
    by (simp only: eq fst_conv o)
  from e n d g k r a[unfolded p] o' show ?thesis by blast
qed

text \<open>
  C8, as stated, fails. In \<open>locked_world\<close> the \<^verbatim>\<open>stat\<close> of the entry \<^verbatim>\<open>note.txt\<close> is denied.
  The read of its hidden attribute raises and \<open>is_hidden\<close> answers \<^verbatim>\<open>False\<close>, but the entry
  is not processed: \<^verbatim>\<open>item.is_dir()\<close> on line 142 calls \<^verbatim>\<open>stat\<close> again, outside any
  \<^verbatim>\<open>try\<close>, the exception leaves the walker, and neither this entry nor the one after it
  is evaluated. (Were \<^verbatim>\<open>is_dir()\<close> and \<^verbatim>\<open>is_file()\<close> to answer \<^verbatim>\<open>False\<close> on this error,
  lines 142 and 144 would both pass the entry over: it would not be evaluated either.)
\<close>

theorem hidden_read_failure_counterexample:
  "fst (read_hidden locked_world (''C:'', [''docs'', ''note.txt''])) = Inl (OSError ''access denied'')
   \<and> fst (is_hidden locked_world (''C:'', [''docs'', ''note.txt''])) = False
   \<and> fst (sync_documents_special 1 locked_world (''C:'', [''docs'']) (''G:'', [''Arch'', ''Docs'']))
       = ([], Raised (OSError ''access denied''))"
  by (simp add: eval_defs locked_world_def)

text \<open>
  C8, amended. When the read of the hidden attribute of an entry raises, \<open>is_hidden\<close>
  answers \<^verbatim>\<open>False\<close> and the loop does with the entry what it does with an entry that is
  not hidden: lines 142 to 145. There the entry is evaluated when \<^verbatim>\<open>stat\<close> can read it
  and it is a file, it is handed to \<open>sync_folder_recursive\<close> when it is a directory (this
  is the case where the read failed because the \<^verbatim>\<open>stat\<close> result has no field
  \<^verbatim>\<open>st_file_attributes\<close>), and when \<^verbatim>\<open>stat\<close> fails with an error other than "not found"
  that exception leaves the walker with no evaluation of the entry.
\<close>

theorem hidden_read_failure_not_filtered:
  assumes "fst (read_hidden w item) = Inl e"
  shows "fst (is_hidden w item) = False
       \<and> special_loop fuel w dst_root (item # items)
           = (case dispatch fuel (log_call w (Stat item)) dst_root item of
                ((evs, Returned), w2) \<Rightarrow>
                  (case special_loop fuel w2 dst_root items of
                     ((evs', r), w3) \<Rightarrow> ((evs @ evs', r), w3))
              | ((evs, r), w2) \<Rightarrow> ((evs, r), w2))
       \<and> (\<forall>st. stat_at w item = Inr st \<and> \<not> st_isdir st \<longrightarrow>
             fst (dispatch fuel (log_call w (Stat item)) dst_root item)
               = ([fst (process_file (log_call (log_call (log_call w (Stat item)) (Stat item))
                                        (Stat item))
                          item (path_join dst_root (path_name item)))], Returned))
       \<and> (\<forall>st. stat_at w item = Inr st \<and> st_isdir st \<longrightarrow>
             dispatch fuel (log_call w (Stat item)) dst_root item
               = sync_folder_recursive fuel (log_call (log_call w (Stat item)) (Stat item)) item
                   (path_join dst_root (path_name item)))
       \<and> (\<forall>x. stat_at w item = Inl x \<and> \<not> ignore_error x \<longrightarrow>
             fst (dispatch fuel (log_call w (Stat item)) dst_root item) = ([], Raised x))"
proof -
  have h: "is_hidden w item = (False, log_call w (Stat item))"
    using assms by (simp add: is_hidden_eq)
  have a: "fst (is_hidden w item) = False" using h by simp
  have b: "special_loop fuel w dst_root (item # items)
           = (case dispatch fuel (log_call w (Stat item)) dst_root item of
                ((evs, Returned), w2) \<Rightarrow>
                  (case special_loop fuel w2 dst_root items of
                     ((evs', r), w3) \<Rightarrow> ((evs @ evs', r), w3))
              | ((evs, r), w2) \<Rightarrow> ((evs, r), w2))"
    by (simp add: h)
  have c: "fst (dispatch fuel (log_call w (Stat item)) dst_root item)
               = ([fst (process_file (log_call (log_call (log_call w (Stat item)) (Stat item))
                                        (Stat item))
                          item (path_join dst_root (path_name item)))], Returned)"
    if "stat_at w item = Inr st" "\<not> st_isdir st" for st
    using that by (simp add: dispatch_eq path_is_dir_eq path_is_file_eq)
  have d: "dispatch fuel (log_call w (Stat item)) dst_root item
               = sync_folder_recursive fuel (log_call (log_call w (Stat item)) (Stat item)) item
                   (path_join dst_root (path_name item))"
    if "stat_at w item = Inr st" "st_isdir st" for st
    using that by (simp add: dispatch_eq path_is_dir_eq)
  have f: "fst (dispatch fuel (log_call w (Stat item)) dst_root item) = ([], Raised x)"
    if "stat_at w item = Inl x" "\<not> ignore_error x" for x
    using that by (simp add: dispatch_eq path_is_dir_eq)
  show ?thesis using a b c d f by blast
qed

theorem hidden_read_failure_not_filtered_witness:
  "fst (read_hidden no_attribute_world (''C:'', [''docs'', ''desktop.ini''])) = Inl AttributeError
   \<and> stat_at no_attribute_world (''C:'', [''docs'', ''desktop.ini''])
       = Inr \<lparr>st_isdir = False, st_size = 30, st_mtime = 1000, st_file_attributes = 34\<rparr>
   \<and> fst (is_hidden no_attribute_world (''C:'', [''docs'', ''desktop.ini''])) = False
   \<and> map ev_args
         (fst (fst (dispatch 1 (log_call no_attribute_world (Stat (''C:'', [''docs'', ''desktop.ini''])))
                      (''G:'', [''Arch'']) (''C:'', [''docs'', ''desktop.ini'']))))
       = [((''C:'', [''docs'', ''desktop.ini'']), (''G:'', [''Arch'', ''desktop.ini'']))]"
proof -
  let ?item = "(''C:'', [''docs'', ''desktop.ini''])"
  have r: "fst (read_hidden no_attribute_world ?item) = Inl AttributeError"
    by (simp add: eval_defs no_attribute_world_def hidden_world_def)
  have s: "stat_at no_attribute_world ?item
             = Inr \<lparr>st_isdir = False, st_size = 30, st_mtime = 1000, st_file_attributes = 34\<rparr>"
    by (simp add: eval_defs no_attribute_world_def hidden_world_def)
  from hidden_read_failure_not_filtered[OF r, of 1 "(''G:'', [''Arch''])"] r s show ?thesis
    by (simp add: ev_args_def path_join_def path_name_def)
qed

text \<open>
  C9. Take a candidate whose fingerprint is computed and is not in the registry. Then
  the \<^verbatim>\<open>try\<close> statement of \<open>process_file\<close> runs in a world whose registry already holds
  the fingerprint (it is inserted before the comparison and the copy), and the
  fingerprint is in the registry after the call, whatever exit was taken. In every run
  that continues from there, every evaluation whose source yields the same fingerprint
  takes the exit \<open>SkippedDuplicate\<close>, and it is a call of \<open>process_file\<close> that did
  nothing but the \<^verbatim>\<open>stat\<close> of its source: the file is not copied.
\<close>

theorem new_fingerprint_stays_registered:
  assumes "fst (get_file_fingerprint w src_file) = Some fp"
      and "fp \<notin> SEEN_FILES_FINGERPRINTS w"
  shows "(let w' = snd (process_file w src_file dst_file);
              entry = (log_call w (Stat src_file))
                        \<lparr>SEEN_FILES_FINGERPRINTS := insert fp (SEEN_FILES_FINGERPRINTS w)\<rparr>
          in process_file w src_file dst_file
               = (evaluation src_file dst_file (Some fp) (fst (guarded entry src_file dst_file)),
                  snd (guarded entry src_file dst_file))
           \<and> fp \<in> SEEN_FILES_FINGERPRINTS w'
           \<and> (\<forall>before ev rest w''.
                 run w' (before @ ev # rest) w'' \<and> ev_fingerprint ev = Some fp \<longrightarrow>
                   ev_outcome ev = SkippedDuplicate
                 \<and> (\<exists>wa. process_file wa (ev_src ev) (ev_dst ev)
                            = (ev, log_call wa (Stat (ev_src ev))))))"
proof -
  let ?entry = "(log_call w (Stat src_file))
                  \<lparr>SEEN_FILES_FINGERPRINTS := insert fp (SEEN_FILES_FINGERPRINTS w)\<rparr>"
  let ?w' = "snd (process_file w src_file dst_file)"
  from assms(1) obtain st where st: "stat_at w src_file = Inr st"
    and fp: "fp = (path_name src_file, st_size st, py_int (st_mtime st))"
    by (auto simp: get_file_fingerprint_eq split: sum.splits)
  have pf: "process_file w src_file dst_file
              = (evaluation src_file dst_file (Some fp) (fst (guarded ?entry src_file dst_file)),
                 snd (guarded ?entry src_file dst_file))"
    using st assms(2) by (simp add: process_file_eq Let_def fp)
  have reg: "fp \<in> SEEN_FILES_FINGERPRINTS ?w'"
    by (subst pf) simp
  have later: "ev_outcome ev = SkippedDuplicate
                 \<and> (\<exists>wa. process_file wa (ev_src ev) (ev_dst ev) = (ev, log_call wa (Stat (ev_src ev))))"
    if r: "run ?w' (before @ ev # rest) w''" and e: "ev_fingerprint ev = Some fp"
    for before ev rest w''
  proof -
    from run_registry[OF r] have "dedup_consistent (SEEN_FILES_FINGERPRINTS ?w') (before @ ev # rest)"
      by simp
    then have out: "ev_outcome ev = SkippedDuplicate"
      using dedup_registered[OF _ reg, of "before @ ev # rest" ev] e by simp
    from run_split[OF r refl] obtain wa wb where
      p: "process_file wa (ev_src ev) (ev_dst ev) = (ev, wb)" by blast
    have "wb = log_call wa (Stat (ev_src ev))"
      using process_file_duplicate_world[of wa "ev_src ev" "ev_dst ev"] p out by simp
    with out p show ?thesis by blast
  qed
  show ?thesis
    unfolding Let_def using pf reg later by blast
qed

theorem new_fingerprint_stays_registered_witness:
  "fst (get_file_fingerprint backed_up_world (''C:'', [''docs'', ''a.txt'']))
     = Some (''a.txt'', 100, 1000)
   \<and> (''a.txt'', 100, 1000) \<notin> SEEN_FILES_FINGERPRINTS backed_up_world
   \<and> ev_outcome (fst (process_file backed_up_world (''C:'', [''docs'', ''a.txt''])
                        (''G:'', [''Arch'', ''a.txt''])))
       = SkippedUnchanged
   \<and> (''a.txt'', 100, 1000)
       \<in> SEEN_FILES_FINGERPRINTS
           (snd (process_file backed_up_world (''C:'', [''docs'', ''a.txt''])
                   (''G:'', [''Arch'', ''a.txt''])))
   \<and> ev_fingerprint
         (fst (process_file
                 (snd (process_file backed_up_world (''C:'', [''docs'', ''a.txt''])
                         (''G:'', [''Arch'', ''a.txt''])))
                 (''C:'', [''docs'', ''sub'', ''a.txt'']) (''G:'', [''Arch'', ''sub'', ''a.txt''])))
       = Some (''a.txt'', 100, 1000)
   \<and> ev_outcome
         (fst (process_file
                 (snd (process_file backed_up_world (''C:'', [''docs'', ''a.txt''])
                         (''G:'', [''Arch'', ''a.txt''])))
                 (''C:'', [''docs'', ''sub'', ''a.txt'']) (''G:'', [''Arch'', ''sub'', ''a.txt''])))
       = SkippedDuplicate"
proof -
  let ?s = "(''C:'', [''docs'', ''a.txt''])"
  let ?d = "(''G:'', [''Arch'', ''a.txt''])"
  let ?s2 = "(''C:'', [''docs'', ''sub'', ''a.txt''])"
  let ?d2 = "(''G:'', [''Arch'', ''sub'', ''a.txt''])"
  let ?w' = "snd (process_file backed_up_world ?s ?d)"
  have f: "fst (get_file_fingerprint backed_up_world ?s) = Some (''a.txt'', 100, 1000)"
    by (simp add: eval_defs backed_up_world_def)
  have n: "(''a.txt'', 100, 1000) \<notin> SEEN_FILES_FINGERPRINTS backed_up_world"
    by (simp add: backed_up_world_def)
  have u: "ev_outcome (fst (process_file backed_up_world ?s ?d)) = SkippedUnchanged"
    by (simp add: eval_defs backed_up_world_def)
  have v: "volumes ?w' = volumes backed_up_world" "faults ?w' = faults backed_up_world"
    by (simp_all add: eval_defs backed_up_world_def)
  have "stat_at ?w' ?s2 = stat_at backed_up_world ?s2"
    using v by (rule stat_at_frame)
  then have f2: "ev_fingerprint (fst (process_file ?w' ?s2 ?d2)) = Some (''a.txt'', 100, 1000)"
    by (simp add: process_file_eq Let_def evaluation_def)
       (simp add: eval_defs backed_up_world_def)
  have r: "run ?w' ([] @ fst (process_file ?w' ?s2 ?d2) # []) (snd (process_file ?w' ?s2 ?d2))"
    using run_eval[of ?w' ?s2 ?d2] by simp
  from new_fingerprint_stays_registered[OF f n, of ?d] r f2 f n u show ?thesis
    unfolding Let_def by blast
qed

text \<open>
  C10. In every run of the task loop, over any tasks and either walker, followed to any
  depth: every \<^verbatim>\<open>mkdir\<close>
  call is the one \<open>process_file\<close> makes for the parent of the destination of an
  evaluation that did not skip; every directory that exists after the run and did not
  exist before it is that parent or an ancestor of it; and when every evaluation skipped
  (as a duplicate or as unchanged), in particular when there was no file at all, the
  file system after the run is the file system before it.
\<close>

theorem directories_only_for_copies:
  "(let evs = fst (fst (main_loop fuel w DEST_ROOT tasks));
        w' = snd (main_loop fuel w DEST_ROOT tasks)
    in (\<forall>p. Mkdir p \<in> set (calls_made w w') \<longrightarrow>
              (\<exists>ev \<in> set evs. p = path_parent (ev_dst ev) \<and> \<not> is_skip (ev_outcome ev)))
     \<and> (\<forall>q. is_dir_at w' q \<and> \<not> is_dir_at w q \<longrightarrow>
              (\<exists>ev \<in> set evs. \<not> is_skip (ev_outcome ev) \<and> fst q = fst (ev_dst ev)
                             \<and> prefix (snd q) (snd (path_parent (ev_dst ev)))))
     \<and> ((\<forall>ev \<in> set evs. is_skip (ev_outcome ev)) \<longrightarrow> volumes w' = volumes w))"
proof -
  let ?evs = "fst (fst (main_loop fuel w DEST_ROOT tasks))"
  let ?w' = "snd (main_loop fuel w DEST_ROOT tasks)"
  have r: "run w ?evs ?w'"
    by (rule main_loop_run[of fuel w DEST_ROOT tasks _ "snd (fst (main_loop fuel w DEST_ROOT tasks))"]) simp
  show ?thesis
    unfolding Let_def
    using run_mkdir[OF r] run_new_dirs[OF r] run_skips[OF r] by blast
qed

theorem directories_only_for_copies_witness:
  "map ev_outcome (fst (fst (main_loop 3 backed_up_world (''G:'', [])
                               [((''C:'', [''docs'']), ''Arch'', False)])))
     = [SkippedUnchanged, SkippedDuplicate]
   \<and> volumes (snd (main_loop 3 backed_up_world (''G:'', []) [((''C:'', [''docs'']), ''Arch'', False)]))
       = volumes backed_up_world
   \<and> \<not> is_dir_at (snd (main_loop 3 backed_up_world (''G:'', [])
                            [((''C:'', [''docs'']), ''Arch'', False)]))
            (''G:'', [''Arch'', ''sub''])
   \<and> Mkdir (''G:'', [''Arch'', ''Local''])
       \<in> set (calls_made twin_world
                 (snd (main_loop 3 twin_world (''G:'', [''Arch''])
                         [((''C:'', [''docs'']), ''Local'', False)])))
   \<and> (\<exists>ev \<in> set (fst (fst (main_loop 3 twin_world (''G:'', [''Arch''])
                                 [((''C:'', [''docs'']), ''Local'', False)]))).
          (''G:'', [''Arch'', ''Local'']) = path_parent (ev_dst ev) \<and> \<not> is_skip (ev_outcome ev))"
proof -
  let ?b = "main_loop 3 backed_up_world (''G:'', []) [((''C:'', [''docs'']), ''Arch'', False)]"
  let ?t = "main_loop 3 twin_world (''G:'', [''Arch'']) [((''C:'', [''docs'']), ''Local'', False)]"
  have o: "map ev_outcome (fst (fst ?b)) = [SkippedUnchanged, SkippedDuplicate]"
    by (simp add: eval_defs backed_up_world_def)
  then have s: "\<forall>ev \<in> set (fst (fst ?b)). is_skip (ev_outcome ev)"
    by (simp add: list_eq_iff_nth_eq all_set_conv_all_nth less_Suc_eq)
  have v: "volumes (snd ?b) = volumes backed_up_world"
    using directories_only_for_copies[of 3 backed_up_world "(''G:'', [])"
            "[((''C:'', [''docs'']), ''Arch'', False)]"] s
    by (simp add: Let_def)
  have n: "\<not> is_dir_at (snd ?b) (''G:'', [''Arch'', ''sub''])"
    by (simp only: is_dir_at_eq v) (simp add: backed_up_world_def)
  have m: "Mkdir (''G:'', [''Arch'', ''Local'']) \<in> set (calls_made twin_world (snd ?t))"
    by (simp add: eval_defs calls_made_def twin_world_def floor_half)
  have e: "\<exists>ev \<in> set (fst (fst ?t)).
             (''G:'', [''Arch'', ''Local'']) = path_parent (ev_dst ev) \<and> \<not> is_skip (ev_outcome ev)"
    using directories_only_for_copies[of 3 twin_world "(''G:'', [''Arch''])"
            "[((''C:'', [''docs'']), ''Local'', False)]"] m
    by (simp add: Let_def)
  from o v n m e show ?thesis by blast
qed

end
